theory Spec2Isabelle
  imports Main
begin

section \<open>Markdown to PDF conversion (scripts/md_to_pdf.py)\<close>

text \<open>
  A shallow embedding of \<^verbatim>\<open>scripts/md_to_pdf.py\<close>: the font resolver \<^verbatim>\<open>load_font\<close>,
  the line reader \<^verbatim>\<open>md_lines\<close> and \<^verbatim>\<open>convert_markdown_to_pdf\<close> with its line-by-line
  loop, its output directory and the call of the layout engine.

  Every call that can raise is a branch of the model. A function of the script returns
  \<open>Inl e\<close> when the exception \<open>e\<close> leaves it and \<open>Inr x\<close> when it returns \<open>x\<close>. What the
  calls into the operating system, the font registry and the layout library answer is read
  from a \<open>world\<close> record, one field for each call.
\<close>

subsection \<open>Exceptions\<close>

text \<open>The exceptions that can leave the functions of the script:
  \<^item> \<open>OSError\<close>: raised by \<^verbatim>\<open>Path.cwd()\<close> or \<^verbatim>\<open>p.exists()\<close> in \<^verbatim>\<open>load_font\<close>, both outside its
    \<^verbatim>\<open>try\<close> (\<^verbatim>\<open>FileNotFoundError\<close>, \<^verbatim>\<open>PermissionError\<close>);
  \<^item> \<open>InputError\<close>: opening, reading or decoding the input file failed;
  \<^item> \<open>ValueError\<close>: \<^verbatim>\<open>Paragraph(text, style)\<close> rejected the markup of \<open>text\<close>;
  \<^item> \<open>MkdirError\<close>: the output directory could not be made;
  \<^item> \<open>LayoutError\<close>: building and writing the document (lines 129 to 138) raised.\<close>

datatype error = OSError | InputError | ValueError | MkdirError | LayoutError

text \<open>Sequencing: a raised exception skips the rest.\<close>

definition and_then :: "error + 'a \<Rightarrow> ('a \<Rightarrow> error + 'b) \<Rightarrow> error + 'b" where
  "and_then r f = (case r of Inl e \<Rightarrow> Inl e | Inr x \<Rightarrow> f x)"

subsection \<open>Python strings\<close>

text \<open>
  A Python \<^verbatim>\<open>str\<close> is a sequence of Unicode code points, so a string of the script is a list
  of code points (the byte order mark U+FEFF is one element, not three bytes). ASCII
  literals of the script are written through \<open>ustr\<close>.
\<close>

type_synonym ustring = "nat list"

definition ustr :: "string \<Rightarrow> ustring" where
  "ustr s = map of_char s"

definition BOM :: nat where
  "BOM = 65279"

definition LF :: nat where
  "LF = 10"

definition CR :: nat where
  "CR = 13"

text \<open>\<^verbatim>\<open>s.strip(chars)\<close> and \<^verbatim>\<open>s.rstrip(chars)\<close>: drop, at both ends (at the right end),
  every character that occurs in \<open>chars\<close>.\<close>

definition rstrip :: "ustring \<Rightarrow> ustring \<Rightarrow> ustring" where
  "rstrip s chars = rev (dropWhile (\<lambda>c. c \<in> set chars) (rev s))"

definition strip :: "ustring \<Rightarrow> ustring \<Rightarrow> ustring" where
  "strip s chars = rstrip (dropWhile (\<lambda>c. c \<in> set chars) s) chars"

text \<open>\<^verbatim>\<open>s.startswith(p)\<close>.\<close>

definition startswith :: "ustring \<Rightarrow> ustring \<Rightarrow> bool" where
  "startswith s p = (take (length p) s = p)"

text \<open>\<^verbatim>\<open>p in s\<close> for strings: \<open>p\<close> occurs in \<open>s\<close> as a contiguous substring.\<close>

fun str_contains :: "ustring \<Rightarrow> ustring \<Rightarrow> bool" where
  "str_contains [] p = (p = [])"
| "str_contains (c # cs) p = (startswith (c # cs) p \<or> str_contains cs p)"

text \<open>\<^verbatim>\<open>sep.join(xs)\<close>.\<close>

fun str_join :: "ustring \<Rightarrow> ustring list \<Rightarrow> ustring" where
  "str_join sep [] = []"
| "str_join sep [x] = x"
| "str_join sep (x # y # ys) = x @ sep @ str_join sep (y # ys)"

subsection \<open>Styles and flowables\<close>

datatype align = TA_LEFT | TA_CENTER | TA_RIGHT | TA_JUSTIFY

text \<open>The attributes of a \<^verbatim>\<open>ParagraphStyle\<close> that the script sets. A style built with
  \<^verbatim>\<open>ParagraphStyle(name=n, parent=p, k=v, ...)\<close> has the attributes of \<open>p\<close> except for the
  name and the keywords given, which is a record update of \<open>p\<close>.\<close>

record style =
  name :: string
  fontName :: string
  fontSize :: int
  leading :: int
  spaceAfter :: int
  alignment :: align
  backColor :: "string option"

datatype flowable =
    Paragraph ustring style
  | Spacer int int
  | ListItem flowable
  | ListFlowable "flowable list" int
  | Preformatted ustring style

text \<open>The five styles that \<^verbatim>\<open>convert_markdown_to_pdf\<close> builds (lines 47 to 59), from the
  \<^verbatim>\<open>Normal\<close> style of the sample style sheet and the resolved font.\<close>

record styles =
  normal :: style
  h1 :: style
  h2 :: style
  h3 :: style
  code :: style

definition make_styles :: "style \<Rightarrow> string \<Rightarrow> styles" where
  "make_styles sample_normal base_font =
     (let normal = sample_normal\<lparr>name := ''NormalCJK'', fontName := base_font,
                                 fontSize := 11, leading := 15, alignment := TA_LEFT\<rparr>
      in \<lparr>normal = normal,
          h1 = normal\<lparr>name := ''H1'', fontSize := 18, leading := 22, spaceAfter := 8\<rparr>,
          h2 = normal\<lparr>name := ''H2'', fontSize := 16, leading := 20, spaceAfter := 6\<rparr>,
          h3 = normal\<lparr>name := ''H3'', fontSize := 14, leading := 18, spaceAfter := 4\<rparr>,
          code = normal\<lparr>name := ''Code'', fontName := ''Courier'', fontSize := 9,
                        leading := 12, backColor := None\<rparr>\<rparr>)"

subsection \<open>The world outside the script\<close>

text \<open>A path is the list of its components; \<^verbatim>\<open>base / file\<close> appends one.\<close>

type_synonym path = "string list"

definition path_join :: "path \<Rightarrow> string \<Rightarrow> path" where
  "path_join base file = base @ [file]"

definition parent :: "path \<Rightarrow> path" where
  "parent p = butlast p"

text \<open>
  What the script asks of its environment:
  \<^item> \<open>cwd\<close>: the result of \<^verbatim>\<open>Path.cwd()\<close>, or \<open>None\<close> when it raises (the working
    directory is gone);
  \<^item> \<open>path_exists p\<close>: the result of \<^verbatim>\<open>p.exists()\<close>, or \<open>None\<close> when it raises (the
    \<^verbatim>\<open>stat\<close> call fails with an error other than "no such file", such as "permission
    denied");
  \<^item> \<open>registerFont family p\<close>: whether \<^verbatim>\<open>pdfmetrics.registerFont(TTFont(family, str(p)))\<close>
    returns (\<open>True\<close>) or raises an \<^verbatim>\<open>Exception\<close> (\<open>False\<close>);
  \<^item> \<open>sample_Normal\<close>: \<^verbatim>\<open>getSampleStyleSheet()["Normal"]\<close>;
  \<^item> \<open>parses text\<close>: whether the markup parser of \<^verbatim>\<open>Paragraph\<close> accepts \<open>text\<close>, asked
    only for a text that holds one of the markup characters;
  \<^item> \<open>read_text p\<close>: the decoded content of the UTF-8 file \<open>p\<close>, or \<open>None\<close> when opening,
    reading or decoding it raises;
  \<^item> \<open>mkdir p\<close>: whether \<^verbatim>\<open>p.mkdir(parents=True, exist_ok=True)\<close> returns (\<open>True\<close>) or
    raises (\<open>False\<close>);
  \<^item> \<open>doc_build p story\<close>: whether making the document for the output file \<open>p\<close> and
    \<^verbatim>\<open>doc.build(story)\<close> return (\<open>True\<close>) or raise (\<open>False\<close>).
\<close>

record world =
  cwd :: "path option"
  path_exists :: "path \<Rightarrow> bool option"
  registerFont :: "string \<Rightarrow> path \<Rightarrow> bool"
  sample_Normal :: style
  parses :: "ustring \<Rightarrow> bool"
  read_text :: "path \<Rightarrow> ustring option"
  mkdir :: "path \<Rightarrow> bool"
  doc_build :: "path \<Rightarrow> flowable list \<Rightarrow> bool"

subsection \<open>\<^verbatim>\<open>Paragraph(text, style)\<close>\<close>

text \<open>The constructor reads \<open>text\<close> as markup and raises \<^verbatim>\<open>ValueError\<close> when the markup is
  malformed (an unclosed \<^verbatim>\<open><b>\<close>, for one). A text without \<^verbatim>\<open><\<close>, \<^verbatim>\<open>>\<close> and \<^verbatim>\<open>&\<close> holds no
  markup and is always accepted; for any other text the answer is the world's.\<close>

definition markup_free :: "ustring \<Rightarrow> bool" where
  "markup_free text = (\<forall>c\<in>set text. c \<notin> set (ustr ''<>&''))"

definition accepts :: "world \<Rightarrow> ustring \<Rightarrow> bool" where
  "accepts w text = (markup_free text \<or> parses w text)"

definition Paragraph_new :: "world \<Rightarrow> ustring \<Rightarrow> style \<Rightarrow> error + flowable" where
  "Paragraph_new w text sty = (if accepts w text then Inr (Paragraph text sty) else Inl ValueError)"

subsection \<open>\<^verbatim>\<open>load_font\<close> (lines 17 to 35)\<close>

definition candidates :: "(string \<times> string) list" where
  "candidates =
     [(''MicrosoftJhengHei'', ''msjh.ttc''),
      (''MicrosoftJhengHei'', ''msjh.ttf''),
      (''NotoSansCJK'', ''NotoSansCJK-Regular.ttc''),
      (''NotoSansTC'', ''NotoSansTC-Regular.otf'')]"

text \<open>The list of base directories of line 27, built anew for each candidate; building it
  calls \<^verbatim>\<open>Path.cwd()\<close>.\<close>

definition search_bases :: "world \<Rightarrow> error + path list" where
  "search_bases w =
     (case cwd w of
        None \<Rightarrow> Inl OSError
      | Some d \<Rightarrow> Inr [[''C:'', ''Windows'', ''Fonts''], path_join d ''fonts'', d])"

text \<open>The inner loop over the base directories for one candidate: \<open>Inr (Some family)\<close> is
  the \<^verbatim>\<open>return family\<close>, \<open>Inr None\<close> is the loop running to its end, \<open>Inl OSError\<close> is
  \<^verbatim>\<open>p.exists()\<close> raising. A registration that raises is caught by
  \<^verbatim>\<open>except Exception: continue\<close>, which goes on with the next base.\<close>

fun load_font_bases :: "world \<Rightarrow> string \<Rightarrow> string \<Rightarrow> path list \<Rightarrow> error + string option" where
  "load_font_bases w family file [] = Inr None"
| "load_font_bases w family file (base # bases) =
     (let p = path_join base file in
      case path_exists w p of
        None \<Rightarrow> Inl OSError
      | Some found \<Rightarrow>
          if found then
            (if registerFont w family p then Inr (Some family)
             else load_font_bases w family file bases)
          else load_font_bases w family file bases)"

text \<open>The outer loop over the candidates, and the fallback after it.\<close>

fun load_font_candidates :: "world \<Rightarrow> (string \<times> string) list \<Rightarrow> error + string" where
  "load_font_candidates w [] = Inr ''Helvetica''"
| "load_font_candidates w ((family, file) # cs) =
     and_then (search_bases w) (\<lambda>bases.
       and_then (load_font_bases w family file bases) (\<lambda>r.
         case r of
           Some f \<Rightarrow> Inr f
         | None \<Rightarrow> load_font_candidates w cs))"

definition load_font :: "world \<Rightarrow> error + string" where
  "load_font w = load_font_candidates w candidates"

subsection \<open>\<^verbatim>\<open>md_lines\<close> (lines 38 to 41)\<close>

text \<open>The file is opened in text mode with the default \<^verbatim>\<open>newline=None\<close>: on reading,
  \<^verbatim>\<open>\r\n\<close> and a lone \<^verbatim>\<open>\r\<close> become \<^verbatim>\<open>\n\<close>.\<close>

fun universal_newlines :: "ustring \<Rightarrow> ustring" where
  "universal_newlines [] = []"
| "universal_newlines [c] = [if c = CR then LF else c]"
| "universal_newlines (c # d # ds) =
     (if c = CR \<and> d = LF then LF # universal_newlines ds
      else if c = CR then LF # universal_newlines (d # ds)
      else c # universal_newlines (d # ds))"

text \<open>Iterating over the file yields its lines, each with its terminating \<^verbatim>\<open>\n\<close>; only the
  last line may lack one, and an empty rest yields nothing.\<close>

fun iter_lines :: "ustring \<Rightarrow> ustring list" where
  "iter_lines [] = []"
| "iter_lines (c # cs) =
     (if c = LF then [LF] # iter_lines cs
      else (case iter_lines cs of
              [] \<Rightarrow> [[c]]
            | l # ls \<Rightarrow> (c # l) # ls))"

text \<open>The lines that the generator yields for a file with the content \<open>text\<close>.\<close>

definition text_lines :: "ustring \<Rightarrow> ustring list" where
  "text_lines text = map (\<lambda>line. rstrip line [LF]) (iter_lines (universal_newlines text))"

definition md_lines :: "world \<Rightarrow> path \<Rightarrow> error + ustring list" where
  "md_lines w p =
     (case read_text w p of
        None \<Rightarrow> Inl InputError
      | Some text \<Rightarrow> Inr (text_lines text))"

subsection \<open>\<^verbatim>\<open>convert_markdown_to_pdf\<close> (lines 44 to 138)\<close>

text \<open>The local variables of the function that the loop updates.\<close>

record conv_state =
  story :: "flowable list"
  bullet_buf :: "ustring list"
  in_code :: bool
  code_buf :: "ustring list"

definition init_state :: conv_state where
  "init_state = \<lparr>story = [], bullet_buf = [], in_code = False, code_buf = []\<rparr>"

text \<open>The list comprehension of line 67: one \<^verbatim>\<open>ListItem(Paragraph(x, normal))\<close> for each
  pending text, from left to right; the first text that \<^verbatim>\<open>Paragraph\<close> rejects raises.\<close>

fun list_items :: "world \<Rightarrow> style \<Rightarrow> ustring list \<Rightarrow> error + flowable list" where
  "list_items w sty [] = Inr []"
| "list_items w sty (x # xs) =
     and_then (Paragraph_new w x sty) (\<lambda>p.
       and_then (list_items w sty xs) (\<lambda>items. Inr (ListItem p # items)))"

text \<open>The closure \<^verbatim>\<open>flush_bullets(buf, indent=12)\<close> (lines 63 to 70); \<open>buf\<close> is always
  \<open>bullet_buf\<close>, which it clears in place.\<close>

definition flush_bullets :: "world \<Rightarrow> styles \<Rightarrow> int \<Rightarrow> conv_state \<Rightarrow> error + conv_state" where
  "flush_bullets w sty indent st =
     (if bullet_buf st = [] then Inr st
      else and_then (list_items w (normal sty) (bullet_buf st)) (\<lambda>items.
             Inr (st\<lparr>story := story st @ [ListFlowable items indent, Spacer 1 4],
                    bullet_buf := []\<rparr>)))"

text \<open>\<^verbatim>\<open>story.append(x)\<close>.\<close>

definition append_story :: "flowable \<Rightarrow> conv_state \<Rightarrow> conv_state" where
  "append_story x st = st\<lparr>story := story st @ [x]\<rparr>"

text \<open>The body of the loop (lines 77 to 124) for one line \<open>raw\<close>. In each branch the flush
  comes first, then the \<^verbatim>\<open>Paragraph\<close> of the line is built, then it is appended. For the
  one-character string \<^verbatim>\<open>"|"\<close>, \<^verbatim>\<open>line.count("|")\<close> is the number of elements of \<open>line\<close>
  equal to it.\<close>

definition step :: "world \<Rightarrow> styles \<Rightarrow> conv_state \<Rightarrow> ustring \<Rightarrow> error + conv_state" where
  "step w sty st raw =
     (let line = strip raw [BOM] in
      if startswith line (ustr ''```'') then
        (if \<not> in_code st then
           and_then (flush_bullets w sty 12 st) (\<lambda>st.
             Inr (st\<lparr>in_code := True, code_buf := []\<rparr>))
         else
           Inr ((append_story (Spacer 1 6)
                  (append_story (Preformatted (str_join [LF] (code_buf st)) (code sty)) st))
                \<lparr>in_code := False\<rparr>))
      else if in_code st then
        Inr (st\<lparr>code_buf := code_buf st @ [raw]\<rparr>)
      else if line = [] then
        and_then (flush_bullets w sty 12 st) (\<lambda>st.
          Inr (append_story (Spacer 1 6) st))
      else if startswith line (ustr ''# '') then
        and_then (flush_bullets w sty 12 st) (\<lambda>st.
          and_then (Paragraph_new w (drop 2 line) (h1 sty)) (\<lambda>p.
            Inr (append_story p st)))
      else if startswith line (ustr ''## '') then
        and_then (flush_bullets w sty 12 st) (\<lambda>st.
          and_then (Paragraph_new w (drop 3 line) (h2 sty)) (\<lambda>p.
            Inr (append_story p st)))
      else if startswith line (ustr ''### '') then
        and_then (flush_bullets w sty 12 st) (\<lambda>st.
          and_then (Paragraph_new w (drop 4 line) (h3 sty)) (\<lambda>p.
            Inr (append_story p st)))
      else if startswith line (ustr ''- '') \<or> startswith line (ustr ''* '') then
        Inr (st\<lparr>bullet_buf := bullet_buf st @ [drop 2 line]\<rparr>)
      else if str_contains line (ustr ''|'')
              \<and> (str_contains line (ustr ''---'') \<or> 2 \<le> count_list line (of_char CHR ''|'')) then
        and_then (flush_bullets w sty 12 st) (\<lambda>st.
          Inr (append_story (Preformatted raw (code sty)) st))
      else
        and_then (flush_bullets w sty 12 st) (\<lambda>st.
          and_then (Paragraph_new w line (normal sty)) (\<lambda>p.
            Inr (append_story p st))))"

text \<open>The loop over the lines: an exception in one step ends it.\<close>

fun run_lines :: "world \<Rightarrow> styles \<Rightarrow> conv_state \<Rightarrow> ustring list \<Rightarrow> error + conv_state" where
  "run_lines w sty st [] = Inr st"
| "run_lines w sty st (raw # rest) =
     and_then (step w sty st raw) (\<lambda>st. run_lines w sty st rest)"

text \<open>The loop from the initial state and the flush after it (line 126): the story that
  \<^verbatim>\<open>doc.build\<close> is to receive.\<close>

definition build_story :: "world \<Rightarrow> styles \<Rightarrow> ustring list \<Rightarrow> error + flowable list" where
  "build_story w sty lines =
     and_then (run_lines w sty init_state lines) (\<lambda>st.
       and_then (flush_bullets w sty 12 st) (\<lambda>st.
         Inr (story st)))"

text \<open>The whole function. \<open>Inr story\<close>: it returned, and \<open>story\<close> is what the layout engine
  built into the output file. The font is resolved first, the input is read and transformed
  next, then the output directory is made, then the document is built. (The lines are read
  while the loop runs; when both the reading and a \<^verbatim>\<open>Paragraph\<close> fail, the model reports the
  reading.)\<close>

definition convert_markdown_to_pdf :: "world \<Rightarrow> path \<Rightarrow> path \<Rightarrow> error + flowable list" where
  "convert_markdown_to_pdf w md_path pdf_path =
     and_then (load_font w) (\<lambda>base_font.
       let sty = make_styles (sample_Normal w) base_font in
       and_then (md_lines w md_path) (\<lambda>lines.
         and_then (build_story w sty lines) (\<lambda>built.
           if \<not> mkdir w (parent pdf_path) then Inl MkdirError
           else if doc_build w pdf_path built then Inr built
           else Inl LayoutError)))"

subsection \<open>The conditions of the loop body, by name\<close>

text \<open>The tests that the loop body makes on a raw line, after it has stripped the byte order
  marks from both ends, in the order in which it makes them: fence, (empty), heading,
  bullet, table.\<close>

definition is_fence :: "ustring \<Rightarrow> bool" where
  "is_fence raw = startswith (strip raw [BOM]) (ustr ''```'')"

definition is_heading :: "ustring \<Rightarrow> bool" where
  "is_heading raw =
     (let line = strip raw [BOM] in
      startswith line (ustr ''# '') \<or> startswith line (ustr ''## '')
        \<or> startswith line (ustr ''### ''))"

definition is_bullet :: "ustring \<Rightarrow> bool" where
  "is_bullet raw =
     (let line = strip raw [BOM] in
      startswith line (ustr ''- '') \<or> startswith line (ustr ''* ''))"

definition is_table :: "ustring \<Rightarrow> bool" where
  "is_table raw =
     (let line = strip raw [BOM] in
      str_contains line (ustr ''|'')
        \<and> (str_contains line (ustr ''---'') \<or> 2 \<le> count_list line (of_char CHR ''|'')))"


subsection \<open>Example inputs\<close>

text \<open>A sample style sheet entry, and a world in which the working directory is
  \<^verbatim>\<open>home/docs\<close>, no probe of the file system raises, two font files exist, only the family
  \<^verbatim>\<open>NotoSansCJK\<close> registers, the one readable file \<^verbatim>\<open>docs/a.md\<close> holds \<open>text\<close>, the one
  directory that can be made is \<^verbatim>\<open>dist/pdf\<close> and every document is built. Its markup parser rejects the three
  texts \<^verbatim>\<open><b>x\<close>, \<^verbatim>\<open><i>x\<close> and \<^verbatim>\<open>a <b>c\<close>, each with a tag that is never closed, as the layout
  library does.\<close>

definition demo_sample :: style where
  "demo_sample = \<lparr>name = ''Normal'', fontName = ''Helvetica'', fontSize = 10, leading = 12,
     spaceAfter = 0, alignment = TA_LEFT, backColor = None\<rparr>"

definition demo_world :: "ustring \<Rightarrow> world" where
  "demo_world text =
     \<lparr>cwd = Some [''home'', ''docs''],
      path_exists = (\<lambda>p. Some (p = [''home'', ''docs'', ''fonts'', ''NotoSansCJK-Regular.ttc'']
                               \<or> p = [''C:'', ''Windows'', ''Fonts'', ''msjh.ttf''])),
      registerFont = (\<lambda>family p. family = ''NotoSansCJK''),
      sample_Normal = demo_sample,
      parses = (\<lambda>t. t \<notin> set [ustr ''<b>x'', ustr ''<i>x'', ustr ''a <b>c'']),
      read_text = (\<lambda>p. if p = [''docs'', ''a.md''] then Some text else None),
      mkdir = (\<lambda>p. p = [''dist'', ''pdf'']),
      doc_build = (\<lambda>p built. True)\<rparr>"

text \<open>The same world with the directory \<^verbatim>\<open>home/docs/fonts\<close> closed to the process, so that the
  probe of a file in it raises \<^verbatim>\<open>PermissionError\<close>; the same world with a file system on
  which no directory can be made; and the same world with output files that cannot be
  written, so that building the document raises.\<close>

definition denied_world :: world where
  "denied_world =
     (demo_world [])\<lparr>path_exists :=
        (\<lambda>p. if take 3 p = [''home'', ''docs'', ''fonts''] \<and> length p = 4 then None
             else Some False)\<rparr>"



text \<open>The styles of the example world.\<close>

definition demo_styles :: styles where
  "demo_styles = make_styles demo_sample ''NotoSansCJK''"

text \<open>The example document of the specification, and the story that the specification
  gives for it.\<close>

definition example_text :: ustring where
  "example_text =
     ustr ''# Title\<newline>\<newline>Hello world\<newline>- a\<newline>- b\<newline>\<newline>```\<newline>code here\<newline>```\<newline>''"

definition example_story :: "styles \<Rightarrow> flowable list" where
  "example_story sty =
     [Paragraph (ustr ''Title'') (h1 sty), Spacer 1 6,
      Paragraph (ustr ''Hello world'') (normal sty),
      ListFlowable [ListItem (Paragraph (ustr ''a'') (normal sty)),
                    ListItem (Paragraph (ustr ''b'') (normal sty))] 12,
      Spacer 1 4, Spacer 1 6,
      Preformatted (ustr ''code here'') (code sty), Spacer 1 6]"

subsection \<open>Notions used in the properties\<close>

text \<open>The blocks of one flush for the pending texts \<open>items\<close>: nothing for no text, else one
  list with one item for each text, in order, then one spacer. The text that a bullet line
  contributes is what follows the two-character marker of the line once the byte order
  marks are stripped from its ends.\<close>

definition list_blocks :: "styles \<Rightarrow> ustring list \<Rightarrow> flowable list" where
  "list_blocks sty items =
     (if items = [] then []
      else [ListFlowable (map (\<lambda>x. ListItem (Paragraph x (normal sty))) items) 12,
            Spacer 1 4])"

definition bullet_text :: "ustring \<Rightarrow> ustring" where
  "bullet_text raw = drop 2 (strip raw [BOM])"

definition is_list_block :: "flowable \<Rightarrow> bool" where
  "is_list_block b = (case b of ListFlowable items indent \<Rightarrow> True | _ \<Rightarrow> False)"

text \<open>While the transformer is inside a code block the bullet buffer is empty.\<close>

definition buf_inv :: "conv_state \<Rightarrow> bool" where
  "buf_inv st = (in_code st \<longrightarrow> bullet_buf st = [])"

text \<open>The characters for which Python's \<^verbatim>\<open>str.isspace\<close> holds, and \<^verbatim>\<open>s.strip()\<close>, which
  trims them from both ends of a string: the trimmed line in the usual sense.\<close>

definition is_whitespace :: "nat \<Rightarrow> bool" where
  "is_whitespace c =
     (c \<in> set [9, 10, 11, 12, 13, 28, 29, 30, 31, 32, 133, 160, 5760]
      \<or> (8192 \<le> c \<and> c \<le> 8202)
      \<or> c \<in> set [8232, 8233, 8239, 8287, 12288])"

definition trim :: "ustring \<Rightarrow> ustring" where
  "trim s = rev (dropWhile is_whitespace (rev (dropWhile is_whitespace s)))"

text \<open>The text and the block of a heading line: what follows the marker of the line once
  the byte order marks are stripped from its ends, in the style of the marker's level.\<close>

definition heading_text :: "ustring \<Rightarrow> ustring" where
  "heading_text raw =
     (let line = strip raw [BOM] in
      if startswith line (ustr ''# '') then drop 2 line
      else if startswith line (ustr ''## '') then drop 3 line
      else drop 4 line)"

definition heading_block :: "styles \<Rightarrow> ustring \<Rightarrow> flowable" where
  "heading_block sty raw =
     (let line = strip raw [BOM] in
      if startswith line (ustr ''# '') then Paragraph (drop 2 line) (h1 sty)
      else if startswith line (ustr ''## '') then Paragraph (drop 3 line) (h2 sty)
      else Paragraph (drop 4 line) (h3 sty))"

text \<open>The probes of \<^verbatim>\<open>load_font\<close> for the working directory \<open>d\<close>, in the order of its two
  loops (candidates outside, base directories inside), and the test that ends the search at
  a probe: the file exists and the registration returns.\<close>

definition probes :: "path \<Rightarrow> (string \<times> path) list" where
  "probes d =
     concat (map (\<lambda>(family, file).
                    map (\<lambda>base. (family, path_join base file))
                      [[''C:'', ''Windows'', ''Fonts''], path_join d ''fonts'', d])
               candidates)"

definition usable :: "world \<Rightarrow> string \<times> path \<Rightarrow> bool" where
  "usable w = (\<lambda>(family, p). path_exists w p = Some True \<and> registerFont w family p)"

text \<open>A flowable with the font name of every style in it blanked: what is left is the kind
  of the block, its text, its nesting and every other attribute of its style. The same for
  the five styles and for the story of a state.\<close>

fun erase_font :: "flowable \<Rightarrow> flowable" where
  "erase_font (Paragraph text s) = Paragraph text (s\<lparr>fontName := []\<rparr>)"
| "erase_font (Spacer width height) = Spacer width height"
| "erase_font (ListItem f) = ListItem (erase_font f)"
| "erase_font (ListFlowable fs indent) = ListFlowable (map erase_font fs) indent"
| "erase_font (Preformatted text s) = Preformatted text (s\<lparr>fontName := []\<rparr>)"

definition erase_styles :: "styles \<Rightarrow> styles" where
  "erase_styles sty =
     \<lparr>normal = (normal sty)\<lparr>fontName := []\<rparr>, h1 = (h1 sty)\<lparr>fontName := []\<rparr>,
      h2 = (h2 sty)\<lparr>fontName := []\<rparr>, h3 = (h3 sty)\<lparr>fontName := []\<rparr>,
      code = (code sty)\<lparr>fontName := []\<rparr>\<rparr>"

definition erase_state :: "conv_state \<Rightarrow> conv_state" where
  "erase_state st = st\<lparr>story := map erase_font (story st)\<rparr>"

text \<open>The search of \<^verbatim>\<open>load_font\<close> written as one loop over a list of probes: \<open>Inr (Some family)\<close>
  at the first probe whose file exists and whose registration returns, \<open>Inr None\<close> when the
  list is used up, \<open>Inl OSError\<close> when the test of a file raises before that.\<close>

fun first_usable :: "world \<Rightarrow> (string \<times> path) list \<Rightarrow> error + string option" where
  "first_usable w [] = Inr None"
| "first_usable w ((family, p) # ps) =
     (case path_exists w p of
        None \<Rightarrow> Inl OSError
      | Some found \<Rightarrow>
          if found \<and> registerFont w family p then Inr (Some family) else first_usable w ps)"


section \<open>Properties\<close>

subsection \<open>Sequencing\<close>

lemma and_then_Inr [simp]: "and_then (Inr x) f = f x"
  by (simp add: and_then_def)

lemma and_then_Inl [simp]: "and_then (Inl e) f = Inl e"
  by (simp add: and_then_def)

lemma and_then_eq_Inr: "(and_then r f = Inr y) = (\<exists>x. r = Inr x \<and> f x = Inr y)"
  by (cases r) simp_all

subsection \<open>Strings\<close>

lemma startswith_Nil: "startswith s [] = True"
  by (simp add: startswith_def)

lemma startswith_Cons:
  "startswith s (a # p) = (case s of [] \<Rightarrow> False | c # cs \<Rightarrow> c = a \<and> startswith cs p)"
  by (cases s) (auto simp: startswith_def)

lemma ustr_Nil: "ustr [] = []"
  by (simp add: ustr_def)

lemma ustr_Cons: "ustr (c # cs) = of_char c # ustr cs"
  by (simp add: ustr_def)

lemmas sw = startswith_Nil startswith_Cons ustr_Nil ustr_Cons

lemma dropWhile_replicate_append:
  "xs = [] \<or> hd xs \<noteq> a \<Longrightarrow> dropWhile (\<lambda>c. c = a) (replicate m a @ xs) = xs"
  by (induction m) (cases xs; auto)+

subsection \<open>What \<^verbatim>\<open>Paragraph\<close> accepts\<close>

lemma Paragraph_new_accepted: "accepts w text \<Longrightarrow> Paragraph_new w text sty = Inr (Paragraph text sty)"
  by (simp add: Paragraph_new_def)

lemma Paragraph_new_rejected: "\<not> accepts w text \<Longrightarrow> Paragraph_new w text sty = Inl ValueError"
  by (simp add: Paragraph_new_def)

lemma list_items_accepted:
  "\<forall>x\<in>set xs. accepts w x \<Longrightarrow>
   list_items w sty xs = Inr (map (\<lambda>x. ListItem (Paragraph x sty)) xs)"
  by (induction xs) (simp_all add: Paragraph_new_accepted)

lemma list_items_rejected:
  "\<exists>x\<in>set xs. \<not> accepts w x \<Longrightarrow> list_items w sty xs = Inl ValueError"
proof (induction xs)
  case Nil
  then show ?case by simp
next
  case (Cons x xs)
  show ?case
  proof (cases "accepts w x")
    case True
    with Cons.prems have "\<exists>y\<in>set xs. \<not> accepts w y" by auto
    then show ?thesis using True Cons.IH by (simp add: Paragraph_new_accepted)
  next
    case False
    then show ?thesis by (simp add: Paragraph_new_rejected)
  qed
qed

subsection \<open>The flush\<close>

lemma flush_bullets_empty: "bullet_buf st = [] \<Longrightarrow> flush_bullets w sty indent st = Inr st"
  by (simp add: flush_bullets_def)

lemma flush_bullets_accepted:
  assumes "\<forall>x\<in>set (bullet_buf st). accepts w x"
  shows "flush_bullets w sty 12 st =
           Inr (st\<lparr>story := story st @ list_blocks sty (bullet_buf st), bullet_buf := []\<rparr>)"
  using assms by (simp add: flush_bullets_def list_blocks_def list_items_accepted)

lemma flush_bullets_rejected:
  assumes "\<exists>x\<in>set (bullet_buf st). \<not> accepts w x"
  shows "flush_bullets w sty indent st = Inl ValueError"
proof -
  from assms have "bullet_buf st \<noteq> []" by auto
  then show ?thesis
    using assms by (simp add: flush_bullets_def list_items_rejected)
qed

lemma flush_bullets_cases:
  "flush_bullets w sty 12 st =
     (if \<forall>x\<in>set (bullet_buf st). accepts w x
      then Inr (st\<lparr>story := story st @ list_blocks sty (bullet_buf st), bullet_buf := []\<rparr>)
      else Inl ValueError)"
  by (simp add: flush_bullets_accepted flush_bullets_rejected)

lemma flush_bullets_Inr:
  assumes "flush_bullets w sty 12 st = Inr st'"
  shows "st' = st\<lparr>story := story st @ list_blocks sty (bullet_buf st), bullet_buf := []\<rparr>"
    and "\<forall>x\<in>set (bullet_buf st). accepts w x"
  using assms by (simp_all add: flush_bullets_cases split: if_splits)

subsection \<open>The line kinds exclude one another\<close>

lemma is_bullet_not_fence: "is_bullet raw \<Longrightarrow> \<not> is_fence raw"
  by (auto simp: is_bullet_def is_fence_def Let_def sw split: list.splits)

lemma is_heading_not_fence: "is_heading raw \<Longrightarrow> \<not> is_fence raw"
  by (auto simp: is_heading_def is_fence_def Let_def sw split: list.splits)

lemma is_bullet_not_heading: "is_bullet raw \<Longrightarrow> \<not> is_heading raw"
  by (auto simp: is_bullet_def is_heading_def Let_def sw split: list.splits)

lemma is_bullet_nonempty: "is_bullet raw \<Longrightarrow> strip raw [BOM] \<noteq> []"
  by (auto simp: is_bullet_def Let_def sw split: list.splits)

lemma is_heading_nonempty: "is_heading raw \<Longrightarrow> strip raw [BOM] \<noteq> []"
  by (auto simp: is_heading_def Let_def sw split: list.splits)

subsection \<open>One step of the loop, by line kind\<close>

lemma step_fence_open:
  "\<not> in_code st \<Longrightarrow> is_fence raw \<Longrightarrow>
   step w sty st raw =
     and_then (flush_bullets w sty 12 st) (\<lambda>st. Inr (st\<lparr>in_code := True, code_buf := []\<rparr>))"
  by (simp add: step_def is_fence_def Let_def)

lemma step_fence_close:
  "in_code st \<Longrightarrow> is_fence raw \<Longrightarrow>
   step w sty st raw =
     Inr (st\<lparr>story := story st @ [Preformatted (str_join [LF] (code_buf st)) (code sty), Spacer 1 6],
            in_code := False\<rparr>)"
  by (simp add: step_def is_fence_def Let_def append_story_def)

lemma step_code_line:
  "in_code st \<Longrightarrow> \<not> is_fence raw \<Longrightarrow>
   step w sty st raw = Inr (st\<lparr>code_buf := code_buf st @ [raw]\<rparr>)"
  by (simp add: step_def is_fence_def Let_def)

lemma step_bullet:
  assumes "\<not> in_code st" and "is_bullet raw"
  shows "step w sty st raw = Inr (st\<lparr>bullet_buf := bullet_buf st @ [bullet_text raw]\<rparr>)"
proof -
  have "\<not> is_fence raw" "\<not> is_heading raw" "strip raw [BOM] \<noteq> []"
    using assms(2) by (simp_all add: is_bullet_not_fence is_bullet_not_heading is_bullet_nonempty)
  then show ?thesis
    using assms
    by (simp add: step_def is_bullet_def is_fence_def is_heading_def bullet_text_def Let_def)
qed

lemma step_blank:
  "\<not> in_code st \<Longrightarrow> strip raw [BOM] = [] \<Longrightarrow>
   step w sty st raw =
     and_then (flush_bullets w sty 12 st) (\<lambda>st. Inr (append_story (Spacer 1 6) st))"
  by (simp add: step_def Let_def startswith_def ustr_def)

lemma step_heading:
  assumes "\<not> in_code st" and "is_heading raw"
  shows "step w sty st raw =
     and_then (flush_bullets w sty 12 st) (\<lambda>st.
       if accepts w (heading_text raw) then Inr (append_story (heading_block sty raw) st)
       else Inl ValueError)"
proof -
  have "\<not> is_fence raw" "strip raw [BOM] \<noteq> []"
    using assms(2) by (simp_all add: is_heading_not_fence is_heading_nonempty)
  then show ?thesis
    using assms
    by (auto simp: step_def heading_block_def heading_text_def is_fence_def is_heading_def
        Let_def Paragraph_new_def)
qed

lemma step_table:
  assumes "\<not> in_code st" and "\<not> is_fence raw" and "strip raw [BOM] \<noteq> []"
    and "\<not> is_heading raw" and "\<not> is_bullet raw" and "is_table raw"
  shows "step w sty st raw =
     and_then (flush_bullets w sty 12 st) (\<lambda>st.
       Inr (append_story (Preformatted raw (code sty)) st))"
  using assms
  by (auto simp: step_def is_fence_def is_heading_def is_bullet_def is_table_def Let_def)

lemma step_paragraph:
  assumes "\<not> in_code st" and "\<not> is_fence raw" and "strip raw [BOM] \<noteq> []"
    and "\<not> is_heading raw" and "\<not> is_bullet raw" and "\<not> is_table raw"
  shows "step w sty st raw =
     and_then (flush_bullets w sty 12 st) (\<lambda>st.
       if accepts w (strip raw [BOM])
       then Inr (append_story (Paragraph (strip raw [BOM]) (normal sty)) st)
       else Inl ValueError)"
  using assms
  by (auto simp: step_def is_fence_def is_heading_def is_bullet_def is_table_def Let_def
      Paragraph_new_def)

subsection \<open>The loop\<close>

lemma run_lines_append:
  "run_lines w sty st (xs @ ys) =
     and_then (run_lines w sty st xs) (\<lambda>st. run_lines w sty st ys)"
proof (induction xs arbitrary: st)
  case Nil
  then show ?case by simp
next
  case (Cons x xs)
  then show ?case by (cases "step w sty st x") simp_all
qed

lemma run_lines_snoc:
  "run_lines w sty st (xs @ [l]) = and_then (run_lines w sty st xs) (\<lambda>st. step w sty st l)"
proof -
  have "run_lines w sty s [l] = step w sty s l" for s
    by (cases "step w sty s l") simp_all
  then show ?thesis by (simp add: run_lines_append)
qed

subsection \<open>The example document\<close>

lemma load_font_demo: "load_font (demo_world t) = Inr ''NotoSansCJK''"
  by (simp add: load_font_def candidates_def search_bases_def path_join_def demo_world_def)

lemma demo_world_fields:
  "sample_Normal (demo_world t) = demo_sample"
  "read_text (demo_world t) [''docs'', ''a.md''] = Some t"
  "mkdir (demo_world t) (parent [''dist'', ''pdf'', ''a.pdf''])"
  "doc_build (demo_world t) p built"
  by (simp_all add: demo_world_def parent_def)

text \<open>
  Claim C1. The lines of the document
  \<^verbatim>\<open>"# Title\n\nHello world\n- a\n- b\n\n```\ncode here\n```\n"\<close> give, in every world and with any
  styles, exactly the story: heading 1 "Title", spacer, paragraph "Hello world", list of "a"
  and "b", spacer, spacer, code "code here", spacer. When the font resolver returns, the
  file holds that document and the output directory can be made, the conversion hands
  exactly this story to the layout engine and returns if the engine does.
\<close>

theorem C1_example_story:
  assumes "load_font w = Inr base_font" and "read_text w md_path = Some example_text"
    and "mkdir w (parent pdf_path)"
  shows "build_story w' sty (text_lines example_text) =
           Inr [Paragraph (ustr ''Title'') (h1 sty), Spacer 1 6,
                Paragraph (ustr ''Hello world'') (normal sty),
                ListFlowable [ListItem (Paragraph (ustr ''a'') (normal sty)),
                              ListItem (Paragraph (ustr ''b'') (normal sty))] 12,
                Spacer 1 4, Spacer 1 6,
                Preformatted (ustr ''code here'') (code sty), Spacer 1 6]
       \<and> convert_markdown_to_pdf w md_path pdf_path =
           (let built = example_story (make_styles (sample_Normal w) base_font) in
            if doc_build w pdf_path built then Inr built else Inl LayoutError)"
proof -
  have lines: "text_lines example_text =
     [ustr ''# Title'', [], ustr ''Hello world'', ustr ''- a'', ustr ''- b'', [],
      ustr ''```'', ustr ''code here'', ustr ''```'']"
    by (simp add: text_lines_def example_text_def ustr_def LF_def CR_def rstrip_def)
  have "build_story w' sty (text_lines example_text) = Inr (example_story sty)" for w' sty
    unfolding lines
    by (simp add: build_story_def step_def flush_bullets_def append_story_def Paragraph_new_def
        accepts_def markup_free_def example_story_def init_state_def strip_def rstrip_def
        BOM_def LF_def startswith_def ustr_def Let_def)
  then show ?thesis
    using assms
    by (simp add: convert_markdown_to_pdf_def md_lines_def Let_def) (simp add: example_story_def)
qed

theorem C1_example_story_witness:
  "convert_markdown_to_pdf (demo_world example_text) [''docs'', ''a.md'']
       [''dist'', ''pdf'', ''a.pdf''] =
     Inr [Paragraph (ustr ''Title'') (h1 demo_styles), Spacer 1 6,
          Paragraph (ustr ''Hello world'') (normal demo_styles),
          ListFlowable [ListItem (Paragraph (ustr ''a'') (normal demo_styles)),
                        ListItem (Paragraph (ustr ''b'') (normal demo_styles))] 12,
          Spacer 1 4, Spacer 1 6,
          Preformatted (ustr ''code here'') (code demo_styles), Spacer 1 6]
   \<and> h1 demo_styles =
       \<lparr>name = ''H1'', fontName = ''NotoSansCJK'', fontSize = 18, leading = 22,
        spaceAfter = 8, alignment = TA_LEFT, backColor = None\<rparr>
   \<and> normal demo_styles =
       \<lparr>name = ''NormalCJK'', fontName = ''NotoSansCJK'', fontSize = 11, leading = 15,
        spaceAfter = 0, alignment = TA_LEFT, backColor = None\<rparr>
   \<and> code demo_styles =
       \<lparr>name = ''Code'', fontName = ''Courier'', fontSize = 9, leading = 12,
        spaceAfter = 0, alignment = TA_LEFT, backColor = None\<rparr>"
proof -
  have font: "load_font (demo_world example_text) = Inr ''NotoSansCJK''"
    by (simp add: load_font_def candidates_def search_bases_def path_join_def demo_world_def)
  have made: "mkdir (demo_world example_text) (parent [''dist'', ''pdf'', ''a.pdf''])"
    by (simp add: demo_world_def parent_def)
  have "text_lines example_text =
     [ustr ''# Title'', [], ustr ''Hello world'', ustr ''- a'', ustr ''- b'', [],
      ustr ''```'', ustr ''code here'', ustr ''```'']"
    by (simp add: text_lines_def example_text_def ustr_def LF_def CR_def rstrip_def)
  then have direct: "build_story (demo_world example_text) demo_styles (text_lines example_text) =
      Inr (example_story demo_styles)"
    by (simp add: build_story_def step_def flush_bullets_def append_story_def Paragraph_new_def
        accepts_def markup_free_def example_story_def init_state_def strip_def rstrip_def
        BOM_def LF_def startswith_def ustr_def Let_def)
  from C1_example_story [of "demo_world example_text" "''NotoSansCJK''" "[''docs'', ''a.md'']"
      "[''dist'', ''pdf'', ''a.pdf'']" "demo_world example_text" demo_styles] font made direct
  show ?thesis
    by (simp add: demo_world_fields example_story_def demo_styles_def Let_def)
      (simp add: make_styles_def demo_sample_def Let_def)
qed

subsection \<open>Fences and code lines\<close>

lemma run_code_lines:
  assumes "in_code st" and "\<forall>raw\<in>set body. \<not> is_fence raw"
  shows "run_lines w sty st body = Inr (st\<lparr>code_buf := code_buf st @ body\<rparr>)"
  using assms
proof (induction body arbitrary: st)
  case Nil
  then show ?case by simp
next
  case (Cons l ls)
  then show ?case by (simp add: step_code_line)
qed

text \<open>
  Claim C3. Inside a code block, a line that is no fence only extends the code buffer with
  the raw line, unchanged and whatever it looks like: the step returns, no block is
  appended, the bullet buffer is untouched and the transformer stays inside the code block.
  A run \<open>body\<close> of such lines therefore ends up, in order and verbatim, in the one
  preformatted block that the closing fence appends.
\<close>

theorem C3_code_lines_verbatim:
  assumes "in_code st" and "\<forall>raw\<in>set body. \<not> is_fence raw"
  shows "(\<forall>raw. \<not> is_fence raw \<longrightarrow> step w sty st raw = Inr (st\<lparr>code_buf := code_buf st @ [raw]\<rparr>))
       \<and> run_lines w sty st body = Inr (st\<lparr>code_buf := code_buf st @ body\<rparr>)
       \<and> (\<forall>fence. is_fence fence \<longrightarrow>
            run_lines w sty st (body @ [fence]) =
              Inr (st\<lparr>story := story st @
                        [Preformatted (str_join [LF] (code_buf st @ body)) (code sty), Spacer 1 6],
                      in_code := False, code_buf := code_buf st @ body\<rparr>))"
proof -
  have one: "step w sty st raw = Inr (st\<lparr>code_buf := code_buf st @ [raw]\<rparr>)"
    if "\<not> is_fence raw" for raw
    using assms(1) that by (rule step_code_line)
  have many: "run_lines w sty st body = Inr (st\<lparr>code_buf := code_buf st @ body\<rparr>)"
    using assms by (rule run_code_lines)
  have close: "run_lines w sty st (body @ [fence]) =
      Inr (st\<lparr>story := story st @
                [Preformatted (str_join [LF] (code_buf st @ body)) (code sty), Spacer 1 6],
              in_code := False, code_buf := code_buf st @ body\<rparr>)"
    if "is_fence fence" for fence
    using assms(1) that by (simp add: run_lines_snoc many step_fence_close)
  show ?thesis using one many close by blast
qed

theorem C3_code_lines_verbatim_witness:
  "(let st = init_state\<lparr>in_code := True\<rparr>;
        body = [BOM # ustr ''  # not a heading'', ustr ''- <b>x'', [], ustr ''| a | b |'']
    in in_code st \<and> (\<forall>raw\<in>set body. \<not> is_fence raw)
       \<and> run_lines (demo_world []) demo_styles st body = Inr (st\<lparr>code_buf := body\<rparr>)
       \<and> run_lines (demo_world []) demo_styles st (body @ [ustr ''```'']) =
           Inr (st\<lparr>story :=
                  [Preformatted
                     (BOM # ustr ''  # not a heading\<newline>- <b>x\<newline>\<newline>| a | b |'')
                     (code demo_styles),
                   Spacer 1 6],
                  in_code := False, code_buf := body\<rparr>))"
  using C3_code_lines_verbatim [of "init_state\<lparr>in_code := True\<rparr>"
      "[BOM # ustr ''  # not a heading'', ustr ''- <b>x'', [], ustr ''| a | b |'']"
      "demo_world []" demo_styles]
  by (simp add: Let_def is_fence_def step_def append_story_def init_state_def strip_def
      rstrip_def BOM_def LF_def startswith_def ustr_def)

text \<open>
  Claim C10. A line that starts with three backticks and goes on with more text is handled
  like the bare fence: the step gives the same result, outside a code block it flushes the
  bullets and enters the code block with an empty code buffer, and the story of any input
  is the same as with the bare fence in place of that line, so the extra text reaches no
  block.
\<close>

theorem C10_fence_info_string:
  assumes "is_fence raw"
  shows "step w sty st raw = step w sty st (ustr ''```'')
       \<and> (\<not> in_code st \<longrightarrow>
            step w sty st raw =
              and_then (flush_bullets w sty 12 st) (\<lambda>st.
                Inr (st\<lparr>in_code := True, code_buf := []\<rparr>)))
       \<and> build_story w sty (pre @ raw # post) = build_story w sty (pre @ ustr ''```'' # post)"
proof -
  have bare: "is_fence (ustr ''```'')"
    by (simp add: is_fence_def strip_def rstrip_def BOM_def startswith_def ustr_def)
  have same: "step w sty s raw = step w sty s (ustr ''```'')" for s
    using assms bare by (cases "in_code s") (simp_all add: step_fence_open step_fence_close)
  have "run_lines w sty init_state (pre @ raw # post) =
        run_lines w sty init_state (pre @ ustr ''```'' # post)"
    by (simp add: run_lines_append same)
  then show ?thesis
    using assms same bare by (simp add: build_story_def step_fence_open)
qed

theorem C10_fence_info_string_witness:
  "is_fence (BOM # ustr ''```python'')
   \<and> step (demo_world []) demo_styles (init_state\<lparr>bullet_buf := [ustr ''a'']\<rparr>)
         (BOM # ustr ''```python'') =
       Inr (init_state\<lparr>story := [ListFlowable [ListItem (Paragraph (ustr ''a'') (normal demo_styles))] 12,
                                    Spacer 1 4],
                         in_code := True\<rparr>)
   \<and> build_story (demo_world []) demo_styles
         [BOM # ustr ''```python'', ustr ''x = 1'', ustr ''```''] =
       Inr [Preformatted (ustr ''x = 1'') (code demo_styles), Spacer 1 6]"
  using C10_fence_info_string [of "BOM # ustr ''```python''" "demo_world []" demo_styles
      "init_state\<lparr>bullet_buf := [ustr ''a'']\<rparr>" "[]" "[ustr ''x = 1'', ustr ''```'']"]
  by (simp add: is_fence_def build_story_def step_def flush_bullets_def Paragraph_new_def
      accepts_def markup_free_def append_story_def init_state_def strip_def rstrip_def BOM_def
      startswith_def ustr_def Let_def)

subsection \<open>Bullet runs\<close>

lemma flush_bullets_fields:
  assumes "flush_bullets w sty indent st = Inr st'"
  shows "bullet_buf st' = []" and "in_code st' = in_code st" and "code_buf st' = code_buf st"
  using assms
  by (auto simp: flush_bullets_def and_then_eq_Inr split: if_splits)

lemma buf_inv_step:
  assumes "buf_inv st" and "step w sty st raw = Inr st'"
  shows "buf_inv st'"
  using assms
  by (auto simp: buf_inv_def step_def Let_def append_story_def and_then_eq_Inr
      dest: flush_bullets_fields split: if_splits)

lemma buf_inv_run:
  assumes "buf_inv st" and "run_lines w sty st ls = Inr st'"
  shows "buf_inv st'"
  using assms
proof (induction ls arbitrary: st)
  case Nil
  then show ?case by simp
next
  case (Cons l ls)
  from Cons.prems(2) obtain s where s: "step w sty st l = Inr s" "run_lines w sty s ls = Inr st'"
    by (auto simp: and_then_eq_Inr)
  from Cons.prems(1) s(1) have "buf_inv s" by (rule buf_inv_step)
  then show ?case using s(2) by (rule Cons.IH)
qed

lemma buf_inv_init: "buf_inv init_state"
  by (simp add: buf_inv_def init_state_def)

lemma step_not_bullet_buf:
  assumes "buf_inv st" and "\<not> is_bullet raw" and "step w sty st raw = Inr st'"
  shows "bullet_buf st' = []"
  using assms
  by (auto simp: buf_inv_def step_def is_bullet_def Let_def append_story_def and_then_eq_Inr
      dest: flush_bullets_fields split: if_splits)

lemma pre_buf_empty:
  assumes "pre = [] \<or> \<not> is_bullet (last pre)" and "run_lines w sty init_state pre = Inr st0"
  shows "bullet_buf st0 = []"
proof (cases pre rule: rev_cases)
  case Nil
  then show ?thesis using assms(2) by (auto simp: init_state_def)
next
  case (snoc ys y)
  with assms(1) have nb: "\<not> is_bullet y" by simp
  from assms(2) obtain s where s: "run_lines w sty init_state ys = Inr s" "step w sty s y = Inr st0"
    unfolding snoc run_lines_snoc by (auto simp: and_then_eq_Inr)
  have "buf_inv s"
    using buf_inv_init s(1) by (rule buf_inv_run)
  then show ?thesis using nb s(2) by (rule step_not_bullet_buf)
qed

lemma run_bullets:
  assumes "\<not> in_code st" and "\<forall>raw\<in>set bs. is_bullet raw"
  shows "run_lines w sty st bs = Inr (st\<lparr>bullet_buf := bullet_buf st @ map bullet_text bs\<rparr>)"
  using assms
proof (induction bs arbitrary: st)
  case Nil
  then show ?case by simp
next
  case (Cons b bs)
  then show ?case by (simp add: step_bullet)
qed

text \<open>Outside a code block, a line that is no bullet starts with the flush, and goes on as
  it does from the flushed state.\<close>

lemma step_after_flush:
  assumes "\<not> in_code st" and "\<not> is_bullet raw"
  shows "step w sty st raw = and_then (flush_bullets w sty 12 st) (\<lambda>s. step w sty s raw)"
proof (cases "flush_bullets w sty 12 st")
  case (Inl e)
  then show ?thesis
    using assms by (auto simp: step_def is_bullet_def Let_def)
next
  case (Inr s)
  note f = flush_bullets_fields [OF Inr]
  have again: "flush_bullets w sty 12 s = Inr s"
    using f(1) by (rule flush_bullets_empty)
  show ?thesis
    using assms Inr again f(2) by (auto simp: step_def is_bullet_def Let_def)
qed

text \<open>Outside a code block and with nothing pending, a line that is no bullet appends at
  most one block, which is no list.\<close>

lemma step_normal_other:
  assumes "\<not> in_code st" and "bullet_buf st = []" and "\<not> is_bullet raw"
    and "step w sty st raw = Inr st'"
  shows "\<exists>blocks. story st' = story st @ blocks \<and> length blocks \<le> 1
           \<and> (\<forall>b\<in>set blocks. \<not> is_list_block b) \<and> bullet_buf st' = []"
  using assms
  by (auto simp: step_def is_bullet_def Let_def append_story_def flush_bullets_empty
      Paragraph_new_def is_list_block_def split: if_splits)

text \<open>
  Claim C2, amended. A run \<open>bs\<close> of bullet lines outside a code block that starts the input or
  follows a line that is no bullet, after lines \<open>pre\<close> on which the loop has returned: while
  the run lasts the steps return, the story does not change and the buffer holds, in order,
  the text after the two-character marker of each line (of the line without the byte order
  marks at its ends). If \<^verbatim>\<open>Paragraph\<close> accepts each of these texts, then at the end of the
  input, and at any next line that is no bullet (a blank line included), the story gains
  exactly one list block with one item for each line of the run, then one spacer, before
  the at most one block of that next line, which is no list, and the buffer is empty again.
  A flush of an empty buffer returns the state unchanged.
  (If \<^verbatim>\<open>Paragraph\<close> rejects one of the texts, the flush that closes the run raises.)
\<close>

theorem C2_bullet_run:
  assumes left: "pre = [] \<or> \<not> is_bullet (last pre)"
    and pre: "run_lines w sty init_state pre = Inr st0"
    and normal_mode: "\<not> in_code st0"
    and run: "\<forall>raw\<in>set bs. is_bullet raw"
  shows "run_lines w sty init_state (pre @ bs) = Inr (st0\<lparr>bullet_buf := map bullet_text bs\<rparr>)
       \<and> ((\<forall>raw\<in>set bs. accepts w (bullet_text raw)) \<longrightarrow>
            build_story w sty (pre @ bs) = Inr (story st0 @ list_blocks sty (map bullet_text bs))
            \<and> (\<forall>nxt. \<not> is_bullet nxt \<longrightarrow>
                 run_lines w sty init_state (pre @ bs @ [nxt]) =
                   step w sty (st0\<lparr>story := story st0 @ list_blocks sty (map bullet_text bs)\<rparr>) nxt
                 \<and> (\<forall>st2. run_lines w sty init_state (pre @ bs @ [nxt]) = Inr st2 \<longrightarrow>
                      (\<exists>blocks. story st2 =
                                  story st0 @ list_blocks sty (map bullet_text bs) @ blocks
                         \<and> length blocks \<le> 1 \<and> (\<forall>b\<in>set blocks. \<not> is_list_block b)
                         \<and> bullet_buf st2 = []))))
       \<and> ((\<exists>raw\<in>set bs. \<not> accepts w (bullet_text raw)) \<longrightarrow>
            build_story w sty (pre @ bs) = Inl ValueError
            \<and> (\<forall>nxt. \<not> is_bullet nxt \<longrightarrow>
                 run_lines w sty init_state (pre @ bs @ [nxt]) = Inl ValueError))
       \<and> (\<forall>st indent. bullet_buf st = [] \<longrightarrow> flush_bullets w sty indent st = Inr st)
       \<and> list_blocks sty [] = []
       \<and> (\<forall>x xs. list_blocks sty (x # xs) =
            [ListFlowable (map (\<lambda>t. ListItem (Paragraph t (normal sty))) (x # xs)) 12,
             Spacer 1 4])"
proof -
  let ?items = "map bullet_text bs"
  let ?acc = "st0\<lparr>bullet_buf := ?items\<rparr>"
  let ?flushed = "st0\<lparr>story := story st0 @ list_blocks sty ?items\<rparr>"
  have empty: "bullet_buf st0 = []"
    using left pre by (rule pre_buf_empty)
  have acc: "run_lines w sty init_state (pre @ bs) = Inr ?acc"
    using run_bullets [OF normal_mode run] empty pre by (simp add: run_lines_append)
  have nc: "\<not> in_code ?acc"
    using normal_mode by simp
  have flush: "flush_bullets w sty 12 s =
      (if \<forall>x\<in>set (bullet_buf s). accepts w x
       then Inr (s\<lparr>story := story s @ list_blocks sty (bullet_buf s), bullet_buf := []\<rparr>)
       else Inl ValueError)" for s
    by (auto simp: flush_bullets_def list_blocks_def list_items_accepted list_items_rejected)
  have next_line: "run_lines w sty init_state (pre @ bs @ [nxt]) =
      and_then (flush_bullets w sty 12 ?acc) (\<lambda>s. step w sty s nxt)"
    if "\<not> is_bullet nxt" for nxt
    using acc run_lines_snoc [of w sty init_state "pre @ bs" nxt] step_after_flush [OF nc that]
    by simp
  have good: "build_story w sty (pre @ bs) = Inr (story st0 @ list_blocks sty ?items)
            \<and> (\<forall>nxt. \<not> is_bullet nxt \<longrightarrow>
                 run_lines w sty init_state (pre @ bs @ [nxt]) = step w sty ?flushed nxt
                 \<and> (\<forall>st2. run_lines w sty init_state (pre @ bs @ [nxt]) = Inr st2 \<longrightarrow>
                      (\<exists>blocks. story st2 = story st0 @ list_blocks sty ?items @ blocks
                         \<and> length blocks \<le> 1 \<and> (\<forall>b\<in>set blocks. \<not> is_list_block b)
                         \<and> bullet_buf st2 = [])))"
    if ok: "\<forall>raw\<in>set bs. accepts w (bullet_text raw)"
  proof -
    have fl: "flush_bullets w sty 12 ?acc = Inr ?flushed"
      using ok empty by (simp add: flush)
    have eof: "build_story w sty (pre @ bs) = Inr (story st0 @ list_blocks sty ?items)"
      by (simp add: build_story_def acc fl)
    have nxt: "run_lines w sty init_state (pre @ bs @ [nxt]) = step w sty ?flushed nxt
          \<and> (\<forall>st2. run_lines w sty init_state (pre @ bs @ [nxt]) = Inr st2 \<longrightarrow>
                (\<exists>blocks. story st2 = story st0 @ list_blocks sty ?items @ blocks
                   \<and> length blocks \<le> 1 \<and> (\<forall>b\<in>set blocks. \<not> is_list_block b)
                   \<and> bullet_buf st2 = []))"
      if nb: "\<not> is_bullet nxt" for nxt
    proof -
      have eq: "run_lines w sty init_state (pre @ bs @ [nxt]) = step w sty ?flushed nxt"
        using next_line [OF nb] fl by simp
      have "\<exists>blocks. story st2 = story st0 @ list_blocks sty ?items @ blocks
                   \<and> length blocks \<le> 1 \<and> (\<forall>b\<in>set blocks. \<not> is_list_block b)
                   \<and> bullet_buf st2 = []"
        if "step w sty ?flushed nxt = Inr st2" for st2
        using step_normal_other [of ?flushed nxt w sty st2] normal_mode empty nb that by simp
      then show ?thesis using eq by simp
    qed
    show ?thesis using eof nxt by blast
  qed
  have bad: "build_story w sty (pre @ bs) = Inl ValueError
            \<and> (\<forall>nxt. \<not> is_bullet nxt \<longrightarrow>
                 run_lines w sty init_state (pre @ bs @ [nxt]) = Inl ValueError)"
    if "\<exists>raw\<in>set bs. \<not> accepts w (bullet_text raw)"
  proof -
    have fl: "flush_bullets w sty 12 ?acc = Inl ValueError"
      using that by (auto simp: flush)
    show ?thesis
      using next_line fl by (simp add: build_story_def acc)
  qed
  have blocks: "list_blocks sty [] = []"
    "\<forall>x xs. list_blocks sty (x # xs) =
       [ListFlowable (map (\<lambda>t. ListItem (Paragraph t (normal sty))) (x # xs)) 12, Spacer 1 4]"
    by (simp_all add: list_blocks_def)
  show ?thesis
    using acc good bad blocks flush_bullets_empty [of _ w sty] by blast
qed

theorem C2_bullet_run_witness:
  "(let pre = [ustr ''Hello'']; bs = [BOM # ustr ''- a'', ustr ''* b'' @ [BOM]]
    in (pre = [] \<or> \<not> is_bullet (last pre))
       \<and> run_lines (demo_world []) demo_styles init_state pre =
           Inr (init_state\<lparr>story := [Paragraph (ustr ''Hello'') (normal demo_styles)]\<rparr>)
       \<and> (\<forall>raw\<in>set bs. is_bullet raw \<and> accepts (demo_world []) (bullet_text raw))
       \<and> build_story (demo_world []) demo_styles (pre @ bs) =
           Inr [Paragraph (ustr ''Hello'') (normal demo_styles),
                ListFlowable [ListItem (Paragraph (ustr ''a'') (normal demo_styles)),
                              ListItem (Paragraph (ustr ''b'') (normal demo_styles))] 12,
                Spacer 1 4]
       \<and> run_lines (demo_world []) demo_styles init_state (pre @ bs @ [[]]) =
           Inr (init_state\<lparr>story :=
                  [Paragraph (ustr ''Hello'') (normal demo_styles),
                   ListFlowable [ListItem (Paragraph (ustr ''a'') (normal demo_styles)),
                                 ListItem (Paragraph (ustr ''b'') (normal demo_styles))] 12,
                   Spacer 1 4, Spacer 1 6]\<rparr>))"
proof -
  let ?w = "demo_world []"
  let ?all = "[ustr ''Hello'', BOM # ustr ''- a'', ustr ''* b'' @ [BOM]]"
  have direct: "build_story ?w demo_styles ?all =
      Inr [Paragraph (ustr ''Hello'') (normal demo_styles),
           ListFlowable [ListItem (Paragraph (ustr ''a'') (normal demo_styles)),
                         ListItem (Paragraph (ustr ''b'') (normal demo_styles))] 12,
           Spacer 1 4]"
    "run_lines ?w demo_styles init_state (?all @ [[]]) =
      Inr (init_state\<lparr>story :=
             [Paragraph (ustr ''Hello'') (normal demo_styles),
              ListFlowable [ListItem (Paragraph (ustr ''a'') (normal demo_styles)),
                            ListItem (Paragraph (ustr ''b'') (normal demo_styles))] 12,
              Spacer 1 4, Spacer 1 6]\<rparr>)"
    by (simp_all add: build_story_def step_def flush_bullets_def Paragraph_new_def accepts_def
        markup_free_def append_story_def init_state_def strip_def rstrip_def BOM_def
        startswith_def ustr_def Let_def)
  from C2_bullet_run [of "[ustr ''Hello'']" "demo_world []" demo_styles
      "init_state\<lparr>story := [Paragraph (ustr ''Hello'') (normal demo_styles)]\<rparr>"
      "[BOM # ustr ''- a'', ustr ''* b'' @ [BOM]]"] direct
  show ?thesis
    by (simp add: Let_def is_bullet_def bullet_text_def step_def flush_bullets_def
        Paragraph_new_def accepts_def markup_free_def append_story_def init_state_def strip_def
        rstrip_def BOM_def startswith_def ustr_def list_blocks_def)
qed

text \<open>The claim as it stands fails for the run of the one bullet line \<^verbatim>\<open>- <b>x\<close>: the flush
  that closes the run raises, at the end of the input and at a blank line alike, and no
  list block is emitted.\<close>

theorem C2_bullet_run_counterexample:
  "is_bullet (ustr ''- <b>x'')
   \<and> run_lines (demo_world []) demo_styles init_state [ustr ''- <b>x''] =
       Inr (init_state\<lparr>bullet_buf := [ustr ''<b>x'']\<rparr>)
   \<and> build_story (demo_world []) demo_styles [ustr ''- <b>x''] = Inl ValueError
   \<and> run_lines (demo_world []) demo_styles init_state [ustr ''- <b>x'', []] = Inl ValueError"
  by (simp add: is_bullet_def build_story_def step_def flush_bullets_def Paragraph_new_def
      accepts_def markup_free_def demo_world_def append_story_def init_state_def strip_def
      rstrip_def BOM_def startswith_def ustr_def Let_def)

subsection \<open>Paragraphs and table rows\<close>

lemma str_contains_single: "str_contains s [a] = (a \<in> set s)"
  by (induction s) (auto simp: sw)

lemma whitespace_not_marker:
  assumes "is_whitespace c"
  shows "c \<noteq> of_char CHR ''`''" "c \<noteq> of_char CHR ''#''" "c \<noteq> of_char CHR ''-''"
    "c \<noteq> of_char CHR ''*''" "c \<noteq> of_char CHR ''|''" "c \<notin> set (ustr ''<>&'')"
  using assms by (auto simp: is_whitespace_def ustr_def)

lemma whitespace_line_kind:
  assumes "line \<noteq> []" and "\<forall>c\<in>set line. is_whitespace c" and "line = strip raw [BOM]"
  shows "\<not> is_fence raw \<and> \<not> is_heading raw \<and> \<not> is_bullet raw \<and> \<not> is_table raw"
proof -
  obtain c cs where line: "line = c # cs"
    using assms(1) by (cases line) auto
  with assms(2) have "is_whitespace c" by simp
  note m = whitespace_not_marker [OF this]
  have "of_char CHR ''|'' \<notin> set line"
    using assms(2) whitespace_not_marker(5) by blast
  then have "\<not> is_table raw"
    by (simp add: is_table_def Let_def assms(3)[symmetric] ustr_Cons ustr_Nil str_contains_single)
  moreover have "\<not> is_fence raw" "\<not> is_heading raw" "\<not> is_bullet raw"
    using m by (simp_all add: is_fence_def is_heading_def is_bullet_def Let_def
        assms(3)[symmetric] line sw)
  ultimately show ?thesis by simp
qed

lemma whitespace_accepted: "\<forall>c\<in>set text. is_whitespace c \<Longrightarrow> accepts w text"
  using whitespace_not_marker(6) by (auto simp: accepts_def markup_free_def)

text \<open>
  Claim C4, amended. Outside a code block, a line that, once the byte order marks are
  stripped from its ends, is not empty and is no fence, heading, bullet or table row is a
  paragraph: if \<^verbatim>\<open>Paragraph\<close> accepts the pending bullet texts and the stripped line, the step
  appends the blocks of the flush and then exactly one paragraph block with the stripped
  line and the normal style. The stripped line is the raw line without the byte order marks
  at its two ends; whitespace is not trimmed. A non-empty line of whitespace only is such a
  line, and \<^verbatim>\<open>Paragraph\<close> accepts it.
  (If \<^verbatim>\<open>Paragraph\<close> rejects a pending text or the line, the step raises.)
\<close>

theorem C4_paragraph_fallthrough:
  assumes "\<not> in_code st" and "strip raw [BOM] \<noteq> []"
    and "(\<not> is_fence raw \<and> \<not> is_heading raw \<and> \<not> is_bullet raw \<and> \<not> is_table raw)
         \<or> (\<forall>c\<in>set (strip raw [BOM]). is_whitespace c)"
  shows "((\<forall>x\<in>set (bullet_buf st). accepts w x) \<and> accepts w (strip raw [BOM]) \<longrightarrow>
            step w sty st raw =
              Inr (st\<lparr>story := story st @ list_blocks sty (bullet_buf st)
                                 @ [Paragraph (strip raw [BOM]) (normal sty)],
                      bullet_buf := []\<rparr>))
       \<and> ((\<exists>x\<in>set (bullet_buf st). \<not> accepts w x) \<or> \<not> accepts w (strip raw [BOM]) \<longrightarrow>
            step w sty st raw = Inl ValueError)
       \<and> ((\<forall>c\<in>set (strip raw [BOM]). is_whitespace c) \<longrightarrow> accepts w (strip raw [BOM]))
       \<and> (\<forall>m n line. line = [] \<or> (hd line \<noteq> BOM \<and> last line \<noteq> BOM) \<longrightarrow>
            strip (replicate m BOM @ line @ replicate n BOM) [BOM] = line)"
proof -
  have kind: "\<not> is_fence raw \<and> \<not> is_heading raw \<and> \<not> is_bullet raw \<and> \<not> is_table raw"
    using assms(2,3) whitespace_line_kind [of "strip raw [BOM]" raw] by blast
  have ends: "strip (replicate m BOM @ line @ replicate n BOM) [BOM] = line"
    if e: "line = [] \<or> (hd line \<noteq> BOM \<and> last line \<noteq> BOM)" for m n line
  proof (cases "line = []")
    case True
    have "dropWhile (\<lambda>c. c = BOM) (replicate k BOM) = []" for k
      using dropWhile_replicate_append [of "[]" BOM k] by simp
    then show ?thesis
      using True by (simp add: strip_def rstrip_def flip: replicate_add)
  next
    case False
    with e have ends: "hd line \<noteq> BOM" "last line \<noteq> BOM" by simp_all
    have front: "dropWhile (\<lambda>c. c = BOM) (replicate m BOM @ line @ replicate n BOM)
                   = line @ replicate n BOM"
      using False ends(1) by (intro dropWhile_replicate_append) simp
    have "rev (line @ replicate n BOM) = replicate n BOM @ rev line"
      by simp
    moreover have "dropWhile (\<lambda>c. c = BOM) (replicate n BOM @ rev line) = rev line"
      using False ends(2) by (intro dropWhile_replicate_append) (simp add: hd_rev)
    ultimately show ?thesis
      by (simp add: strip_def rstrip_def front)
  qed
  have flush: "flush_bullets w sty 12 st =
      (if \<forall>x\<in>set (bullet_buf st). accepts w x
       then Inr (st\<lparr>story := story st @ list_blocks sty (bullet_buf st), bullet_buf := []\<rparr>)
       else Inl ValueError)"
    by (auto simp: flush_bullets_def list_blocks_def list_items_accepted list_items_rejected)
  have st: "step w sty st raw =
     and_then (flush_bullets w sty 12 st) (\<lambda>st.
       if accepts w (strip raw [BOM])
       then Inr (append_story (Paragraph (strip raw [BOM]) (normal sty)) st)
       else Inl ValueError)"
    using assms(1,2) kind
    by (auto simp: step_def is_fence_def is_heading_def is_bullet_def is_table_def Let_def
        Paragraph_new_def)
  have good: "step w sty st raw =
              Inr (st\<lparr>story := story st @ list_blocks sty (bullet_buf st)
                                 @ [Paragraph (strip raw [BOM]) (normal sty)],
                      bullet_buf := []\<rparr>)"
    if "\<forall>x\<in>set (bullet_buf st). accepts w x" and "accepts w (strip raw [BOM])"
    using that by (simp add: st flush append_story_def)
  have bad: "step w sty st raw = Inl ValueError"
    if "(\<exists>x\<in>set (bullet_buf st). \<not> accepts w x) \<or> \<not> accepts w (strip raw [BOM])"
    using that by (auto simp: st flush)
  show ?thesis
    using good bad whitespace_accepted [of "strip raw [BOM]" w] ends by blast
qed

theorem C4_paragraph_fallthrough_witness:
  "(let st = init_state\<lparr>bullet_buf := [ustr ''a'']\<rparr>; raw = BOM # ustr ''   '' @ [BOM, BOM]
    in \<not> in_code st \<and> strip raw [BOM] = ustr ''   ''
       \<and> (\<forall>c\<in>set (strip raw [BOM]). is_whitespace c)
       \<and> step (demo_world []) demo_styles st raw =
           Inr (init_state\<lparr>story :=
                  [ListFlowable [ListItem (Paragraph (ustr ''a'') (normal demo_styles))] 12,
                   Spacer 1 4,
                   Paragraph (ustr ''   '') (normal demo_styles)]\<rparr>)
       \<and> step (demo_world []) demo_styles st (ustr ''a <b>c'') = Inl ValueError)"
proof -
  let ?w = "demo_world []"
  let ?st = "init_state\<lparr>bullet_buf := [ustr ''a'']\<rparr>"
  let ?raw = "BOM # ustr ''   '' @ [BOM, BOM]"
  let ?bad = "ustr ''a <b>c''"
  have nc: "\<not> in_code ?st"
    by (simp add: init_state_def)
  have s: "strip ?raw [BOM] = ustr ''   ''"
    by (simp add: strip_def rstrip_def BOM_def ustr_def)
  have ws: "\<forall>c\<in>set (strip ?raw [BOM]). is_whitespace c"
    unfolding s by (simp add: is_whitespace_def ustr_def)
  have ne: "strip ?raw [BOM] \<noteq> []"
    unfolding s by (simp add: ustr_def)
  have pending: "\<forall>x\<in>set (bullet_buf ?st). accepts ?w x"
    by (simp add: init_state_def accepts_def markup_free_def ustr_def)
  have kind: "(\<not> is_fence ?raw \<and> \<not> is_heading ?raw \<and> \<not> is_bullet ?raw \<and> \<not> is_table ?raw)
         \<or> (\<forall>c\<in>set (strip ?raw [BOM]). is_whitespace c)"
    using ws by simp
  have sb: "strip ?bad [BOM] = ?bad"
    by (simp add: strip_def rstrip_def BOM_def ustr_def)
  have neb: "strip ?bad [BOM] \<noteq> []"
    unfolding sb by (simp add: ustr_def)
  have kindb: "(\<not> is_fence ?bad \<and> \<not> is_heading ?bad \<and> \<not> is_bullet ?bad \<and> \<not> is_table ?bad)
         \<or> (\<forall>c\<in>set (strip ?bad [BOM]). is_whitespace c)"
    by (simp add: is_fence_def is_heading_def is_bullet_def is_table_def strip_def rstrip_def
        BOM_def startswith_def ustr_def Let_def)
  have rej: "\<not> accepts ?w (strip ?bad [BOM])"
    unfolding sb by (simp add: accepts_def markup_free_def demo_world_def ustr_def)
  have one: "step ?w demo_styles ?st ?raw =
      Inr (?st\<lparr>story := story ?st @ list_blocks demo_styles (bullet_buf ?st)
                           @ [Paragraph (strip ?raw [BOM]) (normal demo_styles)],
               bullet_buf := []\<rparr>)"
    using C4_paragraph_fallthrough [OF nc ne kind, of ?w demo_styles] pending ws by blast
  have two: "step ?w demo_styles ?st ?bad = Inl ValueError"
    using C4_paragraph_fallthrough [OF nc neb kindb, of ?w demo_styles] rej by blast
  have direct: "step ?w demo_styles ?st ?raw =
      Inr (init_state\<lparr>story :=
             [ListFlowable [ListItem (Paragraph (ustr ''a'') (normal demo_styles))] 12,
              Spacer 1 4,
              Paragraph (ustr ''   '') (normal demo_styles)]\<rparr>)"
    by (simp add: step_def flush_bullets_def Paragraph_new_def accepts_def markup_free_def
        append_story_def init_state_def strip_def rstrip_def BOM_def startswith_def ustr_def
        Let_def)
  show ?thesis
    using nc s ws one two direct by (simp add: Let_def)
qed

text \<open>The claim as it stands fails twice. The line \<^verbatim>\<open>"  x  "\<close> is a paragraph line, and its
  block holds the line with its blanks, not the trimmed line \<^verbatim>\<open>"x"\<close>. The line \<^verbatim>\<open>a <b>c\<close> is
  a paragraph line too, and the step raises instead of emitting a block.\<close>

theorem C4_paragraph_fallthrough_counterexample:
  "\<not> is_fence (ustr ''  x  '') \<and> strip (ustr ''  x  '') [BOM] \<noteq> []
   \<and> \<not> is_heading (ustr ''  x  '') \<and> \<not> is_bullet (ustr ''  x  '')
   \<and> \<not> is_table (ustr ''  x  '')
   \<and> trim (ustr ''  x  '') = ustr ''x''
   \<and> step (demo_world []) demo_styles init_state (ustr ''  x  '') =
       Inr (init_state\<lparr>story := [Paragraph (ustr ''  x  '') (normal demo_styles)]\<rparr>)
   \<and> Paragraph (ustr ''  x  '') (normal demo_styles)
       \<noteq> Paragraph (trim (ustr ''  x  '')) (normal demo_styles)
   \<and> \<not> is_fence (ustr ''a <b>c'') \<and> strip (ustr ''a <b>c'') [BOM] \<noteq> []
   \<and> \<not> is_heading (ustr ''a <b>c'') \<and> \<not> is_bullet (ustr ''a <b>c'')
   \<and> \<not> is_table (ustr ''a <b>c'')
   \<and> step (demo_world []) demo_styles init_state (ustr ''a <b>c'') = Inl ValueError"
  by (simp add: is_fence_def is_heading_def is_bullet_def is_table_def trim_def is_whitespace_def
      step_def flush_bullets_def Paragraph_new_def accepts_def markup_free_def demo_world_def
      append_story_def init_state_def strip_def rstrip_def BOM_def startswith_def ustr_def
      Let_def)

subsection \<open>Stripping byte order marks keeps pipes and dashes\<close>

lemma startswith_iff: "startswith s p = (\<exists>v. s = p @ v)"
proof
  assume "startswith s p"
  then have "s = p @ drop (length p) s"
    by (metis append_take_drop_id startswith_def)
  then show "\<exists>v. s = p @ v" ..
next
  assume "\<exists>v. s = p @ v"
  then show "startswith s p" by (auto simp: startswith_def)
qed

lemma str_contains_iff: "str_contains s p = (\<exists>u v. s = u @ p @ v)"
proof (induction s)
  case Nil
  then show ?case by auto
next
  case (Cons c cs)
  show ?case
  proof
    assume "str_contains (c # cs) p"
    then consider "startswith (c # cs) p" | "str_contains cs p" by auto
    then show "\<exists>u v. c # cs = u @ p @ v"
    proof cases
      case 1
      then obtain v where "c # cs = p @ v" by (auto simp: startswith_iff)
      then have "c # cs = [] @ p @ v" by simp
      then show ?thesis by blast
    next
      case 2
      then obtain u v where "cs = u @ p @ v" using Cons.IH by auto
      then have "c # cs = (c # u) @ p @ v" by simp
      then show ?thesis by blast
    qed
  next
    assume "\<exists>u v. c # cs = u @ p @ v"
    then obtain u v where uv: "c # cs = u @ p @ v" by auto
    show "str_contains (c # cs) p"
    proof (cases u)
      case Nil
      with uv have "startswith (c # cs) p" by (auto simp: startswith_iff)
      then show ?thesis by simp
    next
      case (Cons a u')
      with uv have "cs = u' @ p @ v" by simp
      then have "str_contains cs p" using Cons.IH by auto
      then show ?thesis by simp
    qed
  qed
qed

lemma str_contains_rev: "str_contains (rev s) (rev p) = str_contains s p"
proof -
  have "(\<exists>u v. rev s = u @ rev p @ v) = (\<exists>u v. s = u @ p @ v)"
  proof
    assume "\<exists>u v. rev s = u @ rev p @ v"
    then obtain u v where "rev s = u @ rev p @ v" by auto
    then have "rev (rev s) = rev (u @ rev p @ v)" by simp
    then have "s = rev v @ p @ rev u" by simp
    then show "\<exists>u v. s = u @ p @ v" by blast
  next
    assume "\<exists>u v. s = u @ p @ v"
    then obtain u v where "s = u @ p @ v" by auto
    then have "rev s = rev v @ rev p @ rev u" by simp
    then show "\<exists>u v. rev s = u @ rev p @ v" by blast
  qed
  then show ?thesis by (simp add: str_contains_iff)
qed

lemma str_contains_dropWhile:
  assumes "p \<noteq> []" and "\<not> P (hd p)"
  shows "str_contains (dropWhile P s) p = str_contains s p"
proof (induction s)
  case Nil
  then show ?case by simp
next
  case (Cons c cs)
  obtain a p' where p: "p = a # p'" using assms(1) by (cases p) auto
  show ?case
  proof (cases "P c")
    case True
    with assms(2) p have "c \<noteq> a" by auto
    then have "\<not> startswith (c # cs) p" by (simp add: p startswith_Cons)
    with True Cons.IH show ?thesis by simp
  next
    case False
    then show ?thesis by simp
  qed
qed

lemma str_contains_strip:
  assumes "p \<noteq> []" and "hd p \<notin> set chars" and "last p \<notin> set chars"
  shows "str_contains (strip s chars) p = str_contains s p"
proof -
  let ?P = "\<lambda>c. c \<in> set chars"
  have rp: "rev p \<noteq> []" "\<not> ?P (hd (rev p))"
    using assms by (simp_all add: hd_rev)
  have "str_contains (strip s chars) p =
        str_contains (rev (dropWhile ?P (rev (dropWhile ?P s)))) (rev (rev p))"
    by (simp add: strip_def rstrip_def)
  also have "\<dots> = str_contains (dropWhile ?P (rev (dropWhile ?P s))) (rev p)"
    by (rule str_contains_rev)
  also have "\<dots> = str_contains (rev (dropWhile ?P s)) (rev p)"
    using rp by (rule str_contains_dropWhile)
  also have "\<dots> = str_contains (dropWhile ?P s) p"
    by (rule str_contains_rev)
  also have "\<dots> = str_contains s p"
    using assms(1,2) by (rule str_contains_dropWhile)
  finally show ?thesis .
qed

lemma count_list_dropWhile: "\<not> P a \<Longrightarrow> count_list (dropWhile P s) a = count_list s a"
  by (induction s) auto

lemma count_list_strip:
  assumes "a \<notin> set chars"
  shows "count_list (strip s chars) a = count_list s a"
  using assms by (simp add: strip_def rstrip_def count_list_rev count_list_dropWhile)

lemma set_strip:
  assumes "a \<notin> set chars"
  shows "(a \<in> set (strip s chars)) = (a \<in> set s)"
  using count_list_strip [OF assms, of s] by (metis count_list_0_iff)

lemma is_table_raw:
  "is_table raw =
     (of_char CHR ''|'' \<in> set raw
      \<and> (str_contains raw (ustr ''---'') \<or> 2 \<le> count_list raw (of_char CHR ''|'')))"
proof -
  have "str_contains (strip raw [BOM]) (ustr ''---'') = str_contains raw (ustr ''---'')"
    by (rule str_contains_strip) (simp_all add: ustr_def BOM_def)
  moreover have "count_list (strip raw [BOM]) (of_char CHR ''|'') = count_list raw (of_char CHR ''|'')"
    by (rule count_list_strip) (simp add: BOM_def)
  moreover have "(of_char CHR ''|'' \<in> set (strip raw [BOM])) = (of_char CHR ''|'' \<in> set raw)"
    by (rule set_strip) (simp add: BOM_def)
  ultimately show ?thesis
    by (simp add: is_table_def Let_def ustr_Cons ustr_Nil str_contains_single)
qed

text \<open>
  Claim C5, amended. Outside a code block, a line that is no fence, not empty, no heading and
  no bullet, and that contains a pipe and either three dashes in a row or at least two
  pipes, is a table row: if \<^verbatim>\<open>Paragraph\<close> accepts the pending bullet texts, the step appends
  the blocks of the flush and then exactly one preformatted block with the raw line, byte
  order marks included, and the code style (font Courier). The script tests the line after
  stripping the byte order marks from its ends, which has the same pipes and dashes as the
  raw line.
  (If \<^verbatim>\<open>Paragraph\<close> rejects a pending text, the step raises.)
\<close>

theorem C5_table_row:
  assumes "\<not> in_code st" and "\<not> is_fence raw" and "strip raw [BOM] \<noteq> []"
    and "\<not> is_heading raw" and "\<not> is_bullet raw"
    and "of_char CHR ''|'' \<in> set raw"
    and "str_contains raw (ustr ''---'') \<or> 2 \<le> count_list raw (of_char CHR ''|'')"
  shows "((\<forall>x\<in>set (bullet_buf st). accepts w x) \<longrightarrow>
            step w sty st raw =
              Inr (st\<lparr>story := story st @ list_blocks sty (bullet_buf st)
                                 @ [Preformatted raw (code sty)],
                      bullet_buf := []\<rparr>))
       \<and> ((\<exists>x\<in>set (bullet_buf st). \<not> accepts w x) \<longrightarrow> step w sty st raw = Inl ValueError)
       \<and> fontName (code (make_styles sample base_font)) = ''Courier''"
proof -
  have "is_table raw"
    using assms(6,7) by (simp add: is_table_raw)
  then have st: "step w sty st raw =
     and_then (flush_bullets w sty 12 st) (\<lambda>st.
       Inr (append_story (Preformatted raw (code sty)) st))"
    using assms(1-5)
    by (auto simp: step_def is_fence_def is_heading_def is_bullet_def is_table_def Let_def)
  have flush: "flush_bullets w sty 12 st =
      (if \<forall>x\<in>set (bullet_buf st). accepts w x
       then Inr (st\<lparr>story := story st @ list_blocks sty (bullet_buf st), bullet_buf := []\<rparr>)
       else Inl ValueError)"
    by (auto simp: flush_bullets_def list_blocks_def list_items_accepted list_items_rejected)
  show ?thesis
    by (auto simp: st flush append_story_def make_styles_def Let_def)
qed

theorem C5_table_row_witness:
  "(let st = init_state\<lparr>bullet_buf := [ustr ''a'', ustr ''b'']\<rparr>; raw = BOM # ustr ''| a | b |''
    in \<not> str_contains raw (ustr ''---'')
       \<and> 2 \<le> count_list raw (of_char CHR ''|'')
       \<and> step (demo_world []) demo_styles st raw =
           Inr (init_state\<lparr>story :=
                  [ListFlowable [ListItem (Paragraph (ustr ''a'') (normal demo_styles)),
                                 ListItem (Paragraph (ustr ''b'') (normal demo_styles))] 12,
                   Spacer 1 4,
                   Preformatted (BOM # ustr ''| a | b |'') (code demo_styles)]\<rparr>))"
proof -
  have direct: "step (demo_world []) demo_styles (init_state\<lparr>bullet_buf := [ustr ''a'', ustr ''b'']\<rparr>)
      (BOM # ustr ''| a | b |'') =
      Inr (init_state\<lparr>story :=
             [ListFlowable [ListItem (Paragraph (ustr ''a'') (normal demo_styles)),
                            ListItem (Paragraph (ustr ''b'') (normal demo_styles))] 12,
              Spacer 1 4,
              Preformatted (BOM # ustr ''| a | b |'') (code demo_styles)]\<rparr>)"
    by (simp add: step_def flush_bullets_def Paragraph_new_def accepts_def markup_free_def
        append_story_def init_state_def strip_def rstrip_def BOM_def startswith_def ustr_def
        Let_def)
  from C5_table_row [of "init_state\<lparr>bullet_buf := [ustr ''a'', ustr ''b'']\<rparr>"
      "BOM # ustr ''| a | b |''" "demo_world []" demo_styles demo_sample "''Helvetica''"]
    direct
  show ?thesis
    by (simp add: Let_def is_fence_def is_heading_def is_bullet_def accepts_def markup_free_def
        list_blocks_def init_state_def strip_def rstrip_def BOM_def startswith_def ustr_def)
qed

text \<open>The claim as it stands fails for the table row \<^verbatim>\<open>| a | b |\<close> after the bullet line
  \<^verbatim>\<open>- <b>x\<close>: the flush raises and no preformatted block is emitted.\<close>

theorem C5_table_row_counterexample:
  "\<not> is_fence (ustr ''| a | b |'') \<and> strip (ustr ''| a | b |'') [BOM] \<noteq> []
   \<and> \<not> is_heading (ustr ''| a | b |'') \<and> \<not> is_bullet (ustr ''| a | b |'')
   \<and> is_table (ustr ''| a | b |'')
   \<and> run_lines (demo_world []) demo_styles init_state [ustr ''- <b>x''] =
       Inr (init_state\<lparr>bullet_buf := [ustr ''<b>x'']\<rparr>)
   \<and> step (demo_world []) demo_styles (init_state\<lparr>bullet_buf := [ustr ''<b>x'']\<rparr>)
         (ustr ''| a | b |'') = Inl ValueError
   \<and> build_story (demo_world []) demo_styles [ustr ''- <b>x'', ustr ''| a | b |''] =
       Inl ValueError"
  by (simp add: is_fence_def is_heading_def is_bullet_def is_table_def build_story_def step_def
      flush_bullets_def Paragraph_new_def accepts_def markup_free_def demo_world_def
      append_story_def init_state_def strip_def rstrip_def BOM_def startswith_def ustr_def
      Let_def)

subsection \<open>Headings\<close>

lemma run_headings:
  assumes "\<not> in_code st" and "bullet_buf st = []" and "\<forall>raw\<in>set lines. is_heading raw"
  shows "run_lines w sty st lines =
           (if \<forall>raw\<in>set lines. accepts w (heading_text raw)
            then Inr (st\<lparr>story := story st @ map (heading_block sty) lines\<rparr>)
            else Inl ValueError)"
  using assms
proof (induction lines arbitrary: st)
  case Nil
  then show ?case by simp
next
  case (Cons l ls)
  let ?st' = "st\<lparr>story := story st @ [heading_block sty l]\<rparr>"
  have one: "step w sty st l =
      (if accepts w (heading_text l) then Inr ?st' else Inl ValueError)"
    using Cons.prems by (simp add: step_heading flush_bullets_empty append_story_def)
  have rest: "run_lines w sty ?st' ls =
      (if \<forall>raw\<in>set ls. accepts w (heading_text raw)
       then Inr (?st'\<lparr>story := story ?st' @ map (heading_block sty) ls\<rparr>)
       else Inl ValueError)"
    using Cons.prems by (intro Cons.IH) simp_all
  show ?case
    by (simp add: one rest)
qed

lemma heading_markers_exclusive:
  "\<not> (startswith line (ustr ''# '') \<and> startswith line (ustr ''## ''))"
  "\<not> (startswith line (ustr ''# '') \<and> startswith line (ustr ''### ''))"
  "\<not> (startswith line (ustr ''## '') \<and> startswith line (ustr ''### ''))"
  by (auto simp: sw split: list.splits)

text \<open>
  Claim C6, amended. For an input of heading lines only (each line, once the byte order
  marks are stripped from its ends, starts with \<^verbatim>\<open>"# "\<close>, \<^verbatim>\<open>"## "\<close> or \<^verbatim>\<open>"### "\<close>) whose heading
  texts \<^verbatim>\<open>Paragraph\<close> accepts, the story is the list of the heading blocks of the lines, one
  for each line and in the order of the lines; the block of a line is a paragraph with the
  text after the marker of the stripped line, in the style of the marker's level, and the
  sizes of the three styles are 18, 16 and 14 points.
  (If \<^verbatim>\<open>Paragraph\<close> rejects one of the heading texts, the conversion raises.)
\<close>

theorem C6_headings_only:
  assumes "\<forall>raw\<in>set lines. is_heading raw"
  shows "((\<forall>raw\<in>set lines. accepts w (heading_text raw)) \<longrightarrow>
            build_story w sty lines = Inr (map (heading_block sty) lines))
       \<and> ((\<exists>raw\<in>set lines. \<not> accepts w (heading_text raw)) \<longrightarrow>
            build_story w sty lines = Inl ValueError)
       \<and> (\<forall>raw\<in>set lines.
            (startswith (strip raw [BOM]) (ustr ''# '') \<longrightarrow>
               heading_text raw = drop 2 (strip raw [BOM])
               \<and> heading_block sty raw = Paragraph (drop 2 (strip raw [BOM])) (h1 sty))
          \<and> (startswith (strip raw [BOM]) (ustr ''## '') \<longrightarrow>
               heading_text raw = drop 3 (strip raw [BOM])
               \<and> heading_block sty raw = Paragraph (drop 3 (strip raw [BOM])) (h2 sty))
          \<and> (startswith (strip raw [BOM]) (ustr ''### '') \<longrightarrow>
               heading_text raw = drop 4 (strip raw [BOM])
               \<and> heading_block sty raw = Paragraph (drop 4 (strip raw [BOM])) (h3 sty)))
       \<and> (let made = make_styles sample base_font in
            fontSize (h1 made) = 18 \<and> fontSize (h2 made) = 16 \<and> fontSize (h3 made) = 14
            \<and> fontSize (h3 made) < fontSize (h2 made) \<and> fontSize (h2 made) < fontSize (h1 made))"
proof -
  have run: "run_lines w sty init_state lines =
          (if \<forall>raw\<in>set lines. accepts w (heading_text raw)
           then Inr (init_state\<lparr>story := story init_state @ map (heading_block sty) lines\<rparr>)
           else Inl ValueError)"
    using assms by (intro run_headings) (simp_all add: init_state_def)
  have ini: "bullet_buf init_state = []" "story init_state = []"
    by (simp_all add: init_state_def)
  have good: "build_story w sty lines = Inr (map (heading_block sty) lines)"
    if "\<forall>raw\<in>set lines. accepts w (heading_text raw)"
    using that by (simp add: build_story_def run flush_bullets_empty ini)
  have bad: "build_story w sty lines = Inl ValueError"
    if "\<exists>raw\<in>set lines. \<not> accepts w (heading_text raw)"
    using that by (auto simp: build_story_def run)
  have level: "(startswith (strip raw [BOM]) (ustr ''# '') \<longrightarrow>
               heading_text raw = drop 2 (strip raw [BOM])
               \<and> heading_block sty raw = Paragraph (drop 2 (strip raw [BOM])) (h1 sty))
          \<and> (startswith (strip raw [BOM]) (ustr ''## '') \<longrightarrow>
               heading_text raw = drop 3 (strip raw [BOM])
               \<and> heading_block sty raw = Paragraph (drop 3 (strip raw [BOM])) (h2 sty))
          \<and> (startswith (strip raw [BOM]) (ustr ''### '') \<longrightarrow>
               heading_text raw = drop 4 (strip raw [BOM])
               \<and> heading_block sty raw = Paragraph (drop 4 (strip raw [BOM])) (h3 sty))" for raw
    using heading_markers_exclusive [of "strip raw [BOM]"]
    by (auto simp: heading_block_def heading_text_def Let_def)
  have sizes: "(let made = make_styles sample base_font in
            fontSize (h1 made) = 18 \<and> fontSize (h2 made) = 16 \<and> fontSize (h3 made) = 14
            \<and> fontSize (h3 made) < fontSize (h2 made) \<and> fontSize (h2 made) < fontSize (h1 made))"
    by (simp add: make_styles_def Let_def)
  show ?thesis
    using good bad level sizes by simp
qed

theorem C6_headings_only_witness:
  "(let lines = [BOM # ustr ''## Two'', ustr ''# One'' @ [BOM], ustr ''### Three'', ustr ''# # x'']
    in (\<forall>raw\<in>set lines. is_heading raw \<and> accepts (demo_world []) (heading_text raw))
       \<and> build_story (demo_world []) demo_styles lines =
           Inr [Paragraph (ustr ''Two'') (h2 demo_styles),
                Paragraph (ustr ''One'') (h1 demo_styles),
                Paragraph (ustr ''Three'') (h3 demo_styles),
                Paragraph (ustr ''# x'') (h1 demo_styles)])"
proof -
  let ?w = "demo_world []"
  let ?lines = "[BOM # ustr ''## Two'', ustr ''# One'' @ [BOM], ustr ''### Three'', ustr ''# # x'']"
  have h: "\<forall>raw\<in>set ?lines. is_heading raw"
    by (simp add: is_heading_def strip_def rstrip_def BOM_def startswith_def ustr_def Let_def)
  have a: "\<forall>raw\<in>set ?lines. accepts ?w (heading_text raw)"
    by (simp add: heading_text_def accepts_def markup_free_def strip_def rstrip_def BOM_def
        startswith_def ustr_def Let_def)
  have "build_story ?w demo_styles ?lines = Inr (map (heading_block demo_styles) ?lines)"
    using C6_headings_only [OF h, of ?w demo_styles] a by blast
  moreover have "build_story ?w demo_styles ?lines =
      Inr [Paragraph (ustr ''Two'') (h2 demo_styles),
           Paragraph (ustr ''One'') (h1 demo_styles),
           Paragraph (ustr ''Three'') (h3 demo_styles),
           Paragraph (ustr ''# x'') (h1 demo_styles)]"
    by (simp add: build_story_def step_def flush_bullets_def Paragraph_new_def accepts_def
        markup_free_def append_story_def init_state_def strip_def rstrip_def BOM_def
        startswith_def ustr_def Let_def)
  ultimately show ?thesis
    using h a by (simp add: Let_def)
qed

text \<open>The claim as it stands fails for the input of the one heading line \<^verbatim>\<open># <i>x\<close>: the
  conversion raises and there is no heading block. And for the heading line \<^verbatim>\<open># T\<close> followed
  by a byte order mark the content is \<^verbatim>\<open>T\<close>, not the rest of that line.\<close>

theorem C6_headings_only_counterexample:
  "is_heading (ustr ''# <i>x'')
   \<and> build_story (demo_world []) demo_styles [ustr ''# <i>x''] = Inl ValueError
   \<and> is_heading (ustr ''# T'' @ [BOM])
   \<and> build_story (demo_world []) demo_styles [ustr ''# T'' @ [BOM]] =
       Inr [Paragraph (ustr ''T'') (h1 demo_styles)]
   \<and> drop 2 (ustr ''# T'' @ [BOM]) \<noteq> ustr ''T''"
  by (simp add: is_heading_def build_story_def step_def flush_bullets_def Paragraph_new_def
      accepts_def markup_free_def demo_world_def append_story_def init_state_def strip_def
      rstrip_def BOM_def startswith_def ustr_def Let_def)

subsection \<open>The font resolver\<close>

lemma load_font_bases_first_usable:
  "load_font_bases w family fname bases =
     first_usable w (map (\<lambda>base. (family, path_join base fname)) bases)"
  by (induction bases) (auto simp: Let_def split: option.splits)

lemma first_usable_append:
  "first_usable w (ps @ qs) =
     and_then (first_usable w ps) (\<lambda>r.
       case r of Some f \<Rightarrow> Inr (Some f) | None \<Rightarrow> first_usable w qs)"
  by (induction ps) (auto split: option.splits)

lemma candidate_then_rest:
  "and_then x (\<lambda>r. case r of
                      Some f \<Rightarrow> Inr f
                    | None \<Rightarrow> and_then y (\<lambda>r. Inr (case r of Some f \<Rightarrow> f | None \<Rightarrow> ''Helvetica''))) =
   and_then (and_then x (\<lambda>r. case r of Some f \<Rightarrow> Inr (Some f) | None \<Rightarrow> y))
     (\<lambda>r. Inr (case r of Some f \<Rightarrow> f | None \<Rightarrow> ''Helvetica''))"
  by (cases x) (auto split: option.splits)

lemma load_font_candidates_first_usable:
  assumes "cwd w = Some d"
  shows "load_font_candidates w cs =
     and_then
       (first_usable w
          (concat (map (\<lambda>(family, fname).
                          map (\<lambda>base. (family, path_join base fname))
                            [[''C:'', ''Windows'', ''Fonts''], path_join d ''fonts'', d])
                     cs)))
       (\<lambda>r. Inr (case r of Some f \<Rightarrow> f | None \<Rightarrow> ''Helvetica''))"
proof (induction cs)
  case Nil
  then show ?case by simp
next
  case (Cons c cs)
  obtain family fname where c: "c = (family, fname)" by (cases c)
  define bases where "bases = [[''C:'', ''Windows'', ''Fonts''], path_join d ''fonts'', d]"
  define here where "here = map (\<lambda>base. (family, path_join base fname)) bases"
  define rest where "rest = concat (map (\<lambda>(family, fname).
                          map (\<lambda>base. (family, path_join base fname)) bases) cs)"
  have sb: "search_bases w = Inr bases"
    using assms by (simp add: search_bases_def bases_def)
  have "load_font_candidates w (c # cs) =
      and_then (first_usable w here) (\<lambda>r. case r of
          Some f \<Rightarrow> Inr f
        | None \<Rightarrow> load_font_candidates w cs)"
    unfolding c by (simp add: sb load_font_bases_first_usable here_def)
  also have "load_font_candidates w cs =
      and_then (first_usable w rest) (\<lambda>r. Inr (case r of Some f \<Rightarrow> f | None \<Rightarrow> ''Helvetica''))"
    using Cons.IH by (simp only: rest_def bases_def)
  also have "and_then (first_usable w here) (\<lambda>r. case r of
          Some f \<Rightarrow> Inr f
        | None \<Rightarrow> and_then (first_usable w rest)
                    (\<lambda>r. Inr (case r of Some f \<Rightarrow> f | None \<Rightarrow> ''Helvetica''))) =
      and_then (first_usable w (here @ rest))
        (\<lambda>r. Inr (case r of Some f \<Rightarrow> f | None \<Rightarrow> ''Helvetica''))"
    by (simp only: candidate_then_rest first_usable_append)
  also have "here @ rest =
      concat (map (\<lambda>(family, fname). map (\<lambda>base. (family, path_join base fname)) bases) (c # cs))"
    by (simp add: c here_def rest_def)
  finally show ?case
    by (simp only: bases_def)
qed

lemma load_font_first_usable:
  assumes "cwd w = Some d"
  shows "load_font w =
     and_then (first_usable w (probes d))
       (\<lambda>r. Inr (case r of Some f \<Rightarrow> f | None \<Rightarrow> ''Helvetica''))"
  using load_font_candidates_first_usable [OF assms, of candidates]
  by (simp add: load_font_def probes_def)

lemma load_font_no_cwd: "cwd w = None \<Longrightarrow> load_font w = Inl OSError"
  by (simp add: load_font_def candidates_def search_bases_def)

lemma first_usable_skip:
  assumes "\<forall>probe\<in>set before. path_exists w (snd probe) \<noteq> None \<and> \<not> usable w probe"
  shows "first_usable w (before @ rest) = first_usable w rest"
  using assms by (induction before) (auto simp: usable_def split: if_splits)

lemma first_usable_hit:
  "usable w (family, p) \<Longrightarrow> first_usable w ((family, p) # rest) = Inr (Some family)"
  by (simp add: usable_def)

lemma first_usable_raise:
  "path_exists w p = None \<Longrightarrow> first_usable w ((family, p) # rest) = Inl OSError"
  by simp

lemma probes_order:
  "probes d =
     [(''MicrosoftJhengHei'', [''C:'', ''Windows'', ''Fonts'', ''msjh.ttc'']),
      (''MicrosoftJhengHei'', d @ [''fonts'', ''msjh.ttc'']),
      (''MicrosoftJhengHei'', d @ [''msjh.ttc'']),
      (''MicrosoftJhengHei'', [''C:'', ''Windows'', ''Fonts'', ''msjh.ttf'']),
      (''MicrosoftJhengHei'', d @ [''fonts'', ''msjh.ttf'']),
      (''MicrosoftJhengHei'', d @ [''msjh.ttf'']),
      (''NotoSansCJK'', [''C:'', ''Windows'', ''Fonts'', ''NotoSansCJK-Regular.ttc'']),
      (''NotoSansCJK'', d @ [''fonts'', ''NotoSansCJK-Regular.ttc'']),
      (''NotoSansCJK'', d @ [''NotoSansCJK-Regular.ttc'']),
      (''NotoSansTC'', [''C:'', ''Windows'', ''Fonts'', ''NotoSansTC-Regular.otf'']),
      (''NotoSansTC'', d @ [''fonts'', ''NotoSansTC-Regular.otf'']),
      (''NotoSansTC'', d @ [''NotoSansTC-Regular.otf''])]"
  by (simp add: probes_def candidates_def path_join_def)

text \<open>
  Claim C8, amended. With the working directory \<open>d\<close>, \<^verbatim>\<open>load_font\<close> goes through the twelve
  probes in the fixed order listed (the four candidates in table order, for each the three
  directories in order). As long as the test of each file returns, it returns the family
  of the first probe whose file exists and whose registration returns, and \<^verbatim>\<open>Helvetica\<close>
  when no probe is such; a registration that raises only moves the search on to the next
  probe. The resolver raises exactly when \<^verbatim>\<open>Path.cwd()\<close> raises, or when the test of a
  file raises before a usable probe is found: these two calls are outside its \<^verbatim>\<open>try\<close>.
\<close>

theorem C8_load_font_first_usable:
  assumes "cwd w = Some d"
  shows "(probes d = before @ (family, p) # after
            \<and> (\<forall>probe\<in>set before. path_exists w (snd probe) \<noteq> None \<and> \<not> usable w probe)
            \<and> usable w (family, p)
          \<longrightarrow> load_font w = Inr family)
       \<and> ((\<forall>probe\<in>set (probes d). path_exists w (snd probe) \<noteq> None \<and> \<not> usable w probe)
          \<longrightarrow> load_font w = Inr ''Helvetica'')
       \<and> (probes d = before @ (family, p) # after
            \<and> (\<forall>probe\<in>set before. path_exists w (snd probe) \<noteq> None \<and> \<not> usable w probe)
            \<and> path_exists w p = None
          \<longrightarrow> load_font w = Inl OSError)
       \<and> load_font (w\<lparr>cwd := None\<rparr>) = Inl OSError
       \<and> (usable w (family, p) \<longleftrightarrow> path_exists w p = Some True \<and> registerFont w family p)
       \<and> probes d =
         [(''MicrosoftJhengHei'', [''C:'', ''Windows'', ''Fonts'', ''msjh.ttc'']),
          (''MicrosoftJhengHei'', d @ [''fonts'', ''msjh.ttc'']),
          (''MicrosoftJhengHei'', d @ [''msjh.ttc'']),
          (''MicrosoftJhengHei'', [''C:'', ''Windows'', ''Fonts'', ''msjh.ttf'']),
          (''MicrosoftJhengHei'', d @ [''fonts'', ''msjh.ttf'']),
          (''MicrosoftJhengHei'', d @ [''msjh.ttf'']),
          (''NotoSansCJK'', [''C:'', ''Windows'', ''Fonts'', ''NotoSansCJK-Regular.ttc'']),
          (''NotoSansCJK'', d @ [''fonts'', ''NotoSansCJK-Regular.ttc'']),
          (''NotoSansCJK'', d @ [''NotoSansCJK-Regular.ttc'']),
          (''NotoSansTC'', [''C:'', ''Windows'', ''Fonts'', ''NotoSansTC-Regular.otf'']),
          (''NotoSansTC'', d @ [''fonts'', ''NotoSansTC-Regular.otf'']),
          (''NotoSansTC'', d @ [''NotoSansTC-Regular.otf''])]"
proof -
  note lf = load_font_first_usable [OF assms]
  have hit: "load_font w = Inr family"
    if "probes d = before @ (family, p) # after"
      and "\<forall>probe\<in>set before. path_exists w (snd probe) \<noteq> None \<and> \<not> usable w probe"
      and "usable w (family, p)"
  proof -
    have "first_usable w (probes d) = first_usable w ((family, p) # after)"
      unfolding that(1) using that(2) by (rule first_usable_skip)
    also have "\<dots> = Inr (Some family)"
      using that(3) by (rule first_usable_hit)
    finally show ?thesis by (simp add: lf)
  qed
  have none: "load_font w = Inr ''Helvetica''"
    if "\<forall>probe\<in>set (probes d). path_exists w (snd probe) \<noteq> None \<and> \<not> usable w probe"
    using first_usable_skip [OF that, of "[]"] by (simp add: lf)
  have raise: "load_font w = Inl OSError"
    if "probes d = before @ (family, p) # after"
      and "\<forall>probe\<in>set before. path_exists w (snd probe) \<noteq> None \<and> \<not> usable w probe"
      and "path_exists w p = None"
    using that by (simp add: lf first_usable_skip)
  have gone: "load_font (w\<lparr>cwd := None\<rparr>) = Inl OSError"
    by (simp add: load_font_no_cwd)
  have u: "usable w (family, p) \<longleftrightarrow> path_exists w p = Some True \<and> registerFont w family p"
    by (simp add: usable_def)
  show ?thesis
    using hit none raise gone u probes_order [of d] by blast
qed

theorem C8_load_font_first_usable_witness:
  "cwd (demo_world []) = Some [''home'', ''docs'']
   \<and> path_exists (demo_world []) [''C:'', ''Windows'', ''Fonts'', ''msjh.ttf''] = Some True
   \<and> \<not> registerFont (demo_world []) ''MicrosoftJhengHei'' [''C:'', ''Windows'', ''Fonts'', ''msjh.ttf'']
   \<and> usable (demo_world [])
        (''NotoSansCJK'', [''home'', ''docs'', ''fonts'', ''NotoSansCJK-Regular.ttc''])
   \<and> load_font (demo_world []) = Inr ''NotoSansCJK''"
proof -
  let ?w = "demo_world []"
  let ?d = "[''home'', ''docs'']"
  let ?before = "take 7 (probes ?d)"
  let ?after = "drop 8 (probes ?d)"
  let ?p = "[''home'', ''docs'', ''fonts'', ''NotoSansCJK-Regular.ttc'']"
  have c: "cwd ?w = Some ?d"
    by (simp add: demo_world_def)
  have split: "probes ?d = ?before @ (''NotoSansCJK'', ?p) # ?after"
    by (simp add: probes_order)
  have skip: "\<forall>probe\<in>set ?before. path_exists ?w (snd probe) \<noteq> None \<and> \<not> usable ?w probe"
    by (simp add: probes_order usable_def demo_world_def)
  have hit: "usable ?w (''NotoSansCJK'', ?p)"
    by (simp add: usable_def demo_world_def)
  have "load_font ?w = Inr ''NotoSansCJK''"
    using C8_load_font_first_usable [OF c, of ?before "''NotoSansCJK''" ?p ?after] split skip hit
    by blast
  moreover have "load_font ?w = Inr ''NotoSansCJK''"
    by (simp add: load_font_def candidates_def search_bases_def path_join_def demo_world_def)
  ultimately show ?thesis
    using c hit by (simp add: demo_world_def)
qed

text \<open>The claim as it stands fails in its last part: the resolver raises when the test of a
  file raises, as it does for a directory \<^verbatim>\<open>fonts\<close> that the process may not search, and
  when the working directory is gone.\<close>

theorem C8_load_font_first_usable_counterexample:
  "path_exists denied_world [''home'', ''docs'', ''fonts'', ''msjh.ttc''] = None
   \<and> load_font denied_world = Inl OSError
   \<and> load_font ((demo_world [])\<lparr>cwd := None\<rparr>) = Inl OSError"
  by (simp add: load_font_def candidates_def search_bases_def path_join_def denied_world_def
      demo_world_def)

subsection \<open>An input that ends inside a code block\<close>







subsection \<open>The story as a function of the text and of the font\<close>

lemma erase_state_fields:
  "story (erase_state st) = map erase_font (story st)"
  "bullet_buf (erase_state st) = bullet_buf st"
  "in_code (erase_state st) = in_code st"
  "code_buf (erase_state st) = code_buf st"
  by (simp_all add: erase_state_def)

lemma erase_update:
  "erase_state (st\<lparr>in_code := b\<rparr>) = (erase_state st)\<lparr>in_code := b\<rparr>"
  "erase_state (st\<lparr>code_buf := c\<rparr>) = (erase_state st)\<lparr>code_buf := c\<rparr>"
  "erase_state (st\<lparr>bullet_buf := d\<rparr>) = (erase_state st)\<lparr>bullet_buf := d\<rparr>"
  by (simp_all add: erase_state_def)

lemma erase_append:
  "erase_state (append_story x st) = append_story (erase_font x) (erase_state st)"
  by (simp add: erase_state_def append_story_def)

lemma erase_styles_fields:
  "normal (erase_styles sty) = (normal sty)\<lparr>fontName := []\<rparr>"
  "h1 (erase_styles sty) = (h1 sty)\<lparr>fontName := []\<rparr>"
  "h2 (erase_styles sty) = (h2 sty)\<lparr>fontName := []\<rparr>"
  "h3 (erase_styles sty) = (h3 sty)\<lparr>fontName := []\<rparr>"
  "code (erase_styles sty) = (code sty)\<lparr>fontName := []\<rparr>"
  by (simp_all add: erase_styles_def)

lemma map_sum_and_then:
  "map_sum id g (and_then r f) = and_then r (\<lambda>x. map_sum id g (f x))"
  by (cases r) simp_all

lemma and_then_map_sum:
  "and_then (map_sum id g r) f = and_then r (\<lambda>x. f (g x))"
  by (cases r) simp_all

lemma erase_flush:
  "map_sum id erase_state (flush_bullets w sty 12 st) =
     flush_bullets w (erase_styles sty) 12 (erase_state st)"
  by (simp add: flush_bullets_cases erase_state_fields)
    (simp add: erase_state_def list_blocks_def erase_styles_fields comp_def)

lemma erase_flush_then:
  "and_then (flush_bullets w (erase_styles sty) 12 (erase_state st)) f =
     and_then (flush_bullets w sty 12 st) (\<lambda>s. f (erase_state s))"
  by (simp add: erase_flush [symmetric] and_then_map_sum)

lemma erase_step:
  "map_sum id erase_state (step w sty st raw) = step w (erase_styles sty) (erase_state st) raw"
  by (auto simp: step_def Let_def map_sum_and_then erase_flush_then erase_append erase_update
      erase_state_fields erase_styles_fields Paragraph_new_def)

lemma erase_run:
  "map_sum id erase_state (run_lines w sty st lines) =
     run_lines w (erase_styles sty) (erase_state st) lines"
proof (induction lines arbitrary: st)
  case Nil
  then show ?case by simp
next
  case (Cons l ls)
  have "run_lines w (erase_styles sty) (erase_state st) (l # ls) =
      and_then (map_sum id erase_state (step w sty st l))
        (\<lambda>s. run_lines w (erase_styles sty) s ls)"
    by (simp add: erase_step)
  also have "\<dots> = and_then (step w sty st l)
        (\<lambda>s. run_lines w (erase_styles sty) (erase_state s) ls)"
    by (rule and_then_map_sum)
  also have "\<dots> = and_then (step w sty st l)
        (\<lambda>s. map_sum id erase_state (run_lines w sty s ls))"
    by (simp add: Cons.IH)
  finally have rhs: "run_lines w (erase_styles sty) (erase_state st) (l # ls) =
      and_then (step w sty st l) (\<lambda>s. map_sum id erase_state (run_lines w sty s ls))" .
  have lhs: "map_sum id erase_state (run_lines w sty st (l # ls)) =
      and_then (step w sty st l) (\<lambda>s. map_sum id erase_state (run_lines w sty s ls))"
    by (simp only: run_lines.simps map_sum_and_then)
  show ?case
    by (simp only: lhs rhs)
qed

lemma erase_build_story:
  "map_sum id (map erase_font) (build_story w sty lines) = build_story w (erase_styles sty) lines"
proof -
  have init: "erase_state init_state = init_state"
    by (simp add: erase_state_def init_state_def)
  have "build_story w (erase_styles sty) lines =
      and_then (map_sum id erase_state (run_lines w sty init_state lines))
        (\<lambda>s. and_then (flush_bullets w (erase_styles sty) 12 s) (\<lambda>s. Inr (story s)))"
    unfolding build_story_def erase_run init ..
  also have "\<dots> = and_then (run_lines w sty init_state lines)
        (\<lambda>s. and_then (flush_bullets w sty 12 s) (\<lambda>s. Inr (story (erase_state s))))"
    by (simp add: and_then_map_sum erase_flush_then)
  finally show ?thesis
    by (simp add: build_story_def map_sum_and_then erase_state_fields)
qed

lemma erase_make_styles:
  "erase_styles (make_styles sample font1) = erase_styles (make_styles sample font2)"
  by (simp add: erase_styles_def make_styles_def Let_def)

text \<open>What a step returns does not depend on the world: the world only decides whether it
  returns.\<close>

lemma step_Inr_unique:
  assumes "step w1 sty st raw = Inr a" and "step w2 sty st raw = Inr b"
  shows "a = b"
  using assms
  by (auto simp: step_def Let_def and_then_eq_Inr Paragraph_new_def
      dest!: flush_bullets_Inr(1) split: if_splits)

lemma run_lines_Inr_unique:
  assumes "run_lines w1 sty st lines = Inr a" and "run_lines w2 sty st lines = Inr b"
  shows "a = b"
  using assms
proof (induction lines arbitrary: st)
  case Nil
  then show ?case by simp
next
  case (Cons l ls)
  from Cons.prems obtain s1 s2 where s: "step w1 sty st l = Inr s1" "run_lines w1 sty s1 ls = Inr a"
      "step w2 sty st l = Inr s2" "run_lines w2 sty s2 ls = Inr b"
    by (auto simp: and_then_eq_Inr)
  from s(1,3) have "s1 = s2" by (rule step_Inr_unique)
  with s(2,4) show ?case by (auto intro: Cons.IH)
qed

lemma build_story_Inr_unique:
  assumes "build_story w1 sty lines = Inr a" and "build_story w2 sty lines = Inr b"
  shows "a = b"
proof -
  from assms obtain s1 t1 s2 t2 where s: "run_lines w1 sty init_state lines = Inr s1"
      "flush_bullets w1 sty 12 s1 = Inr t1" "a = story t1"
      "run_lines w2 sty init_state lines = Inr s2"
      "flush_bullets w2 sty 12 s2 = Inr t2" "b = story t2"
    by (auto simp: build_story_def and_then_eq_Inr)
  from s(1,4) have "s1 = s2" by (rule run_lines_Inr_unique)
  with s(2,5) have "t1 = t2"
    by (auto dest!: flush_bullets_Inr(1))
  with s(3,6) show ?thesis by simp
qed

lemma first_usable_cong_world:
  assumes "path_exists w1 = path_exists w2" and "registerFont w1 = registerFont w2"
  shows "first_usable w1 ps = first_usable w2 ps"
  using assms by (induction ps) (auto split: option.splits)

lemma load_font_cong_world:
  assumes "cwd w1 = cwd w2" and "path_exists w1 = path_exists w2"
    and "registerFont w1 = registerFont w2"
  shows "load_font w1 = load_font w2"
proof (cases "cwd w1")
  case None
  then show ?thesis using assms(1) by (simp add: load_font_no_cwd)
next
  case (Some d)
  then show ?thesis
    using assms(1) first_usable_cong_world [OF assms(2,3)]
    by (simp add: load_font_first_usable)
qed

text \<open>
  Claim C7. Two conversions that read the same text, with the same sample style sheet, and
  that both return: their stories agree block for block once the font names are blanked, so
  the resolved font decides nothing but the font name of the styles; if the resolver returns
  the same in both, and in particular if the working directory, the existing files and the
  registrations are the same, the stories are equal. What the transformer does with any lines
  in one world with one font and with another differs in font names only: it raises for
  both or returns for both, with stories that agree once the font names are blanked.
\<close>

theorem C7_story_determined:
  assumes "read_text w1 md1 = read_text w2 md2" and "sample_Normal w1 = sample_Normal w2"
    and "convert_markdown_to_pdf w1 md1 pdf1 = Inr story1"
    and "convert_markdown_to_pdf w2 md2 pdf2 = Inr story2"
  shows "map erase_font story1 = map erase_font story2
       \<and> (load_font w1 = load_font w2 \<longrightarrow> story1 = story2)
       \<and> (cwd w1 = cwd w2 \<and> path_exists w1 = path_exists w2 \<and> registerFont w1 = registerFont w2
            \<longrightarrow> story1 = story2)
       \<and> map_sum id (map erase_font) (build_story w (make_styles sample font1) lines) =
           map_sum id (map erase_font) (build_story w (make_styles sample font2) lines)"
proof -
  have fonts: "map_sum id (map erase_font) (build_story v (make_styles sample f1) ls) =
           map_sum id (map erase_font) (build_story v (make_styles sample f2) ls)" for v sample f1 f2 ls
    by (simp add: erase_build_story erase_make_styles [of sample f1 f2])
  from assms(3) obtain font1 lines1 where c1: "load_font w1 = Inr font1"
      "md_lines w1 md1 = Inr lines1"
      "build_story w1 (make_styles (sample_Normal w1) font1) lines1 = Inr story1"
    by (auto simp: convert_markdown_to_pdf_def Let_def and_then_eq_Inr split: if_splits)
  from assms(4) obtain font2 lines2 where c2: "load_font w2 = Inr font2"
      "md_lines w2 md2 = Inr lines2"
      "build_story w2 (make_styles (sample_Normal w2) font2) lines2 = Inr story2"
    by (auto simp: convert_markdown_to_pdf_def Let_def and_then_eq_Inr split: if_splits)
  have same_lines: "lines1 = lines2"
    using c1(2) c2(2) assms(1) by (auto simp: md_lines_def split: option.splits)
  let ?e = "erase_styles (make_styles (sample_Normal w2) font2)"
  have e1: "build_story w1 ?e lines2 = Inr (map erase_font story1)"
    using c1(3) erase_build_story [of w1 "make_styles (sample_Normal w1) font1" lines1]
    by (simp add: same_lines assms(2) erase_make_styles [of _ font1 font2])
  have e2: "build_story w2 ?e lines2 = Inr (map erase_font story2)"
    using c2(3) erase_build_story [of w2 "make_styles (sample_Normal w2) font2" lines2]
    by simp
  have erased: "map erase_font story1 = map erase_font story2"
    using e1 e2 by (rule build_story_Inr_unique)
  have same_font: "story1 = story2" if "load_font w1 = load_font w2"
  proof -
    from that c1(1) c2(1) have "font1 = font2" by simp
    with c1(3) c2(3) show ?thesis
      by (auto simp: same_lines assms(2) intro: build_story_Inr_unique)
  qed
  have registry: "load_font w1 = load_font w2"
    if "cwd w1 = cwd w2 \<and> path_exists w1 = path_exists w2 \<and> registerFont w1 = registerFont w2"
    using that by (intro load_font_cong_world) simp_all
  show ?thesis
    using erased same_font registry fonts by blast
qed

theorem C7_story_determined_witness:
  "(let w1 = demo_world (ustr ''# T\<newline>- a\<newline>'');
        w2 = w1\<lparr>registerFont := (\<lambda>family p. False)\<rparr>;
        md = [''docs'', ''a.md'']; pdf = [''dist'', ''pdf'', ''a.pdf''];
        s1 = make_styles demo_sample ''NotoSansCJK''; s2 = make_styles demo_sample ''Helvetica''
    in read_text w1 md = read_text w2 md \<and> sample_Normal w1 = sample_Normal w2
       \<and> convert_markdown_to_pdf w1 md pdf =
           Inr [Paragraph (ustr ''T'') (h1 s1),
                ListFlowable [ListItem (Paragraph (ustr ''a'') (normal s1))] 12, Spacer 1 4]
       \<and> convert_markdown_to_pdf w2 md pdf =
           Inr [Paragraph (ustr ''T'') (h1 s2),
                ListFlowable [ListItem (Paragraph (ustr ''a'') (normal s2))] 12, Spacer 1 4]
       \<and> map erase_font [Paragraph (ustr ''T'') (h1 s1),
                ListFlowable [ListItem (Paragraph (ustr ''a'') (normal s1))] 12, Spacer 1 4] =
         map erase_font [Paragraph (ustr ''T'') (h1 s2),
                ListFlowable [ListItem (Paragraph (ustr ''a'') (normal s2))] 12, Spacer 1 4]
       \<and> fontName (h1 s1) \<noteq> fontName (h1 s2))"
proof -
  let ?w1 = "demo_world (ustr ''# T\<newline>- a\<newline>'')"
  let ?w2 = "?w1\<lparr>registerFont := (\<lambda>family p. False)\<rparr>"
  let ?md = "[''docs'', ''a.md'']"
  let ?pdf = "[''dist'', ''pdf'', ''a.pdf'']"
  let ?s1 = "make_styles demo_sample ''NotoSansCJK''"
  let ?s2 = "make_styles demo_sample ''Helvetica''"
  have f2: "load_font ?w2 = Inr ''Helvetica''"
    by (simp add: load_font_def candidates_def search_bases_def path_join_def demo_world_def)
  have story: "build_story w sty [ustr ''# T'', ustr ''- a''] =
      Inr [Paragraph (ustr ''T'') (h1 sty),
           ListFlowable [ListItem (Paragraph (ustr ''a'') (normal sty))] 12, Spacer 1 4]" for w sty
    by (simp add: build_story_def step_def flush_bullets_def Paragraph_new_def accepts_def
        markup_free_def append_story_def init_state_def strip_def rstrip_def BOM_def
        startswith_def ustr_def Let_def)
  have l1: "md_lines ?w1 ?md = Inr [ustr ''# T'', ustr ''- a'']"
    by (simp add: md_lines_def text_lines_def demo_world_def rstrip_def LF_def CR_def ustr_def)
  have l2: "md_lines ?w2 ?md = Inr [ustr ''# T'', ustr ''- a'']"
    by (simp add: md_lines_def text_lines_def demo_world_def rstrip_def LF_def CR_def ustr_def)
  have c1: "convert_markdown_to_pdf ?w1 ?md ?pdf =
      Inr [Paragraph (ustr ''T'') (h1 ?s1),
           ListFlowable [ListItem (Paragraph (ustr ''a'') (normal ?s1))] 12, Spacer 1 4]"
    by (simp add: convert_markdown_to_pdf_def l1 load_font_demo story Let_def)
      (simp add: demo_world_def parent_def)
  have c2: "convert_markdown_to_pdf ?w2 ?md ?pdf =
      Inr [Paragraph (ustr ''T'') (h1 ?s2),
           ListFlowable [ListItem (Paragraph (ustr ''a'') (normal ?s2))] 12, Spacer 1 4]"
    by (simp add: convert_markdown_to_pdf_def l2 f2 story Let_def)
      (simp add: demo_world_def parent_def)
  have r: "read_text ?w1 ?md = read_text ?w2 ?md" "sample_Normal ?w1 = sample_Normal ?w2"
    by (simp_all add: demo_world_def)
  have diff: "fontName (h1 ?s1) \<noteq> fontName (h1 ?s2)"
    by (simp add: make_styles_def Let_def)
  from C7_story_determined [OF r c1 c2] r c1 c2 diff show ?thesis
    by (simp add: Let_def)
qed

end
